theory Spec2Isabelle
  imports Main "HOL-Library.Multiset" "HOL-Library.Char_ord" "HOL-Library.List_Lexorder"
    "HOL-Library.Product_Lexorder" "HOL-Library.Word"
begin

section \<open>Result assembly of zoekt-underhood (web/server.go)\<close>

text \<open>
  A shallow embedding of the assembly code of the web gateway: ticket parsing, the
  file-tree loop, the source-fetch loop, snippet construction, the relevance sort, the
  declaration pass and \<open>groupSites\<close>. Go strings and byte slices are byte sequences;
  they are modelled as \<open>string\<close> (a \<open>char list\<close>, one \<open>char\<close> per byte), so
  \<open>length\<close> is Go's \<open>len\<close>. A run-time panic is a value of type \<open>panic\<close>.
\<close>

text \<open>Go's \<open>int\<close> on the 64-bit platforms of the server: a 64-bit word, whose arithmetic
  wraps around (\<open>sint\<close> reads its signed value).\<close>

type_synonym goInt = "64 word"

subsection \<open>Go library functions used by the code\<close>

datatype panic = IndexOutOfRange | RegexpCompile

text \<open>\<open>strings.SplitN(t, sep, 2)\<close> for a one-byte separator: at most two parts, split
  at the first separator; the whole string when there is none.\<close>

definition stringsSplitN2 :: "char \<Rightarrow> string \<Rightarrow> string list" where
  "stringsSplitN2 sep t =
     (if sep \<in> set t
      then [takeWhile (\<lambda>c. c \<noteq> sep) t, tl (dropWhile (\<lambda>c. c \<noteq> sep) t)]
      else [t])"

text \<open>\<open>strings.Split(s, sep)\<close> for a one-byte separator: every separator splits, and the
  result of splitting the empty string is the one-element list of the empty string.\<close>

fun stringsSplit :: "char \<Rightarrow> string \<Rightarrow> string list" where
  "stringsSplit sep [] = [[]]"
| "stringsSplit sep (c # cs) =
     (if c = sep then [] # stringsSplit sep cs
      else (case stringsSplit sep cs of
              [] \<Rightarrow> [[c]]
            | p # ps \<Rightarrow> (c # p) # ps))"

text \<open>\<open>strings.TrimPrefix(s, prefix)\<close>: \<open>s\<close> without the prefix when it starts with it,
  \<open>s\<close> unchanged otherwise.\<close>

definition stringsTrimPrefix :: "string \<Rightarrow> string \<Rightarrow> string" where
  "stringsTrimPrefix s prefix =
     (if take (length prefix) s = prefix then drop (length prefix) s else s)"

subsection \<open>Tickets\<close>

record ticket =
  repo :: string
  path :: string

text \<open>\<open>parseTicket\<close> returns \<open>(ticket, error)\<close>; the error is \<open>nil\<close> on every path, so
  the model returns on the right of the sum always. Callers still test the error.\<close>

definition parseTicket :: "string \<Rightarrow> string + ticket" where
  "parseTicket t =
     (let parts = stringsSplitN2 CHR '':'' t;
          res = \<lparr>repo = [], path = []\<rparr>;
          res = (if length parts > 0 then res\<lparr>repo := parts ! 0\<rparr> else res);
          res = (if length parts > 1 then res\<lparr>path := parts ! 1\<rparr> else res)
      in Inr res)"

definition complete :: "ticket \<Rightarrow> bool" where
  "complete t = (repo t \<noteq> [] \<and> path t \<noteq> [])"

text \<open>The textual form of a ticket. The code has no function for it: it writes
  \<open>f.Repository + ":" + f.FileName\<close> in place (in \<open>appendSearches\<close> and in the
  file-tree loop).\<close>

definition formatTicket :: "ticket \<Rightarrow> string" where
  "formatTicket t = repo t @ '':'' @ path t"

subsection \<open>Sites, snippets and groups\<close>

record UhDisplayedFile =
  FileTicket :: string
  DisplayName :: string

text \<open>\<open>CmPoint\<close>: the fields \<open>Line\<close> and \<open>Ch\<close> of the code (\<open>Line\<close> is also a field of
  the backend's line match, hence the prefix here).\<close>

record CmPoint =
  CmLine :: goInt
  CmCh :: goInt

record CmRange =
  From :: CmPoint
  To :: CmPoint

record UhSnippet =
  Text :: string
  FullSpan :: CmRange
  OccurrenceSpan :: CmRange

record fileSites =
  containingFile :: UhDisplayedFile
  snippets :: "UhSnippet list"
  fileChecksum :: string
  snippetsHash :: string

record UhFileSites =
  ContainingFile :: UhDisplayedFile
  IsDupOf :: "UhDisplayedFile option"
  Snippets :: "UhSnippet list"

record UhSiteGroup =
  Files :: "UhFileSites list"

record groupResult =
  snipCnt :: nat
  fileCnt :: nat
  fileDupCnt :: nat
  matchDupCnt :: nat
  groups :: "UhSiteGroup list"

subsection \<open>groupSites\<close>

text \<open>The local variables of \<open>groupSites\<close> that its loop updates. The two Go maps are
  keyed by \<open>string(checksum)\<close> and \<open>string(hash)\<close>; the counters only grow from zero
  by at most the number of sites and snippets, so they are natural numbers.\<close>

record groupLocals =
  seenTickets :: "string \<rightharpoonup> UhDisplayedFile"
  contentGroups :: "string \<rightharpoonup> UhFileSites list"
  contentGroupOrder :: "string list"
  snipCntL :: nat
  fileCntL :: nat
  fileDupCntL :: nat
  matchDupCntL :: nat

definition groupInit :: groupLocals where
  "groupInit =
     \<lparr>seenTickets = Map.empty, contentGroups = Map.empty, contentGroupOrder = [],
      snipCntL = 0, fileCntL = 0, fileDupCntL = 0, matchDupCntL = 0\<rparr>"

text \<open>One iteration of \<open>for _, fs := range fileSites\<close>.\<close>

definition groupStep :: "groupLocals \<Rightarrow> fileSites \<Rightarrow> groupLocals" where
  "groupStep st fs =
     (let (dupTick, st1) =
            (case seenTickets st (fileChecksum fs) of
               Some seenTick \<Rightarrow> (Some seenTick, st\<lparr>fileDupCntL := fileDupCntL st + 1\<rparr>)
             | None \<Rightarrow>
                 (None,
                  st\<lparr>seenTickets := (seenTickets st)(fileChecksum fs \<mapsto> containingFile fs)\<rparr>));
          h = snippetsHash fs;
          s = \<lparr>ContainingFile = containingFile fs, IsDupOf = dupTick, Snippets = snippets fs\<rparr>;
          st2 =
            (case contentGroups st1 h of
               Some g \<Rightarrow>
                 st1\<lparr>contentGroups := (contentGroups st1)(h \<mapsto> g @ [s]),
                     matchDupCntL := matchDupCntL st1 + 1\<rparr>
             | None \<Rightarrow>
                 st1\<lparr>contentGroups := (contentGroups st1)(h \<mapsto> [s]),
                     contentGroupOrder := contentGroupOrder st1 @ [h]\<rparr>)
      in st2\<lparr>fileCntL := fileCntL st2 + 1,
             snipCntL := snipCntL st2 + length (snippets fs)\<rparr>)"

text \<open>Reading a Go map at a key it does not hold gives the zero value, here the nil
  slice.\<close>

definition groupSites :: "fileSites list \<Rightarrow> groupResult" where
  "groupSites fss =
     (let st = foldl groupStep groupInit fss;
          gs = map (\<lambda>h. \<lparr>Files = (case contentGroups st h of None \<Rightarrow> [] | Some g \<Rightarrow> g)\<rparr>)
                 (contentGroupOrder st)
      in \<lparr>snipCnt = snipCntL st, fileCnt = fileCntL st, fileDupCnt = fileDupCntL st,
          matchDupCnt = matchDupCntL st, groups = gs\<rparr>)"

subsection \<open>What groupSites is specified to produce\<close>

text \<open>The canonical file of the \<open>i\<close>-th site: the displayed file of the first earlier
  site with the same checksum, if there is one.\<close>

definition canonicalOf :: "fileSites list \<Rightarrow> nat \<Rightarrow> UhDisplayedFile option" where
  "canonicalOf fss i =
     map_option containingFile
       (find (\<lambda>c. fileChecksum c = fileChecksum (fss ! i)) (take i fss))"

text \<open>The site specified for the \<open>i\<close>-th input: its own file and snippets, marked as a
  duplicate of its canonical file.\<close>

definition emittedSite :: "fileSites list \<Rightarrow> nat \<Rightarrow> UhFileSites" where
  "emittedSite fss i =
     \<lparr>ContainingFile = containingFile (fss ! i), IsDupOf = canonicalOf fss i,
      Snippets = snippets (fss ! i)\<rparr>"

text \<open>The distinct elements of a list in the order of their first occurrence.\<close>

definition firstSeen :: "'a list \<Rightarrow> 'a list" where
  "firstSeen xs = rev (remdups (rev xs))"

text \<open>The positions of the input that repeat an earlier value of \<open>key\<close>.\<close>

definition repeats :: "('a \<Rightarrow> 'k) \<Rightarrow> 'a list \<Rightarrow> nat list" where
  "repeats key xs = filter (\<lambda>i. key (xs ! i) \<in> key ` set (take i xs)) [0..<length xs]"

text \<open>The members specified for the group of hash \<open>h\<close>: the sites of the inputs
  carrying that hash, in input order.\<close>

definition groupMembers :: "fileSites list \<Rightarrow> string \<Rightarrow> UhFileSites list" where
  "groupMembers fss h =
     map (emittedSite fss) (filter (\<lambda>i. snippetsHash (fss ! i) = h) [0..<length fss])"

text \<open>Sample sites: \<open>siteA\<close> and \<open>siteB\<close> share a checksum and differ in their snippets
  hash; \<open>siteC\<close> shares its snippets hash with \<open>siteA\<close> and has a checksum of its own.\<close>

definition siteA :: fileSites where
  "siteA = \<lparr>containingFile = \<lparr>FileTicket = ''r:foo_a'', DisplayName = ''r:foo_a''\<rparr>,
            snippets = [], fileChecksum = ''c1'', snippetsHash = ''h1''\<rparr>"

definition siteB :: fileSites where
  "siteB = \<lparr>containingFile = \<lparr>FileTicket = ''r:foo_b'', DisplayName = ''r:foo_b''\<rparr>,
            snippets = [], fileChecksum = ''c1'', snippetsHash = ''h2''\<rparr>"

definition siteC :: fileSites where
  "siteC = \<lparr>containingFile = \<lparr>FileTicket = ''q:c'', DisplayName = ''q:c''\<rparr>,
            snippets = [], fileChecksum = ''c2'', snippetsHash = ''h1''\<rparr>"

subsection \<open>The backend's results\<close>

text \<open>The result types of the search backend are declared by the zoekt library; these
  records hold the fields that the code reads. The positions are Go \<open>int\<close>s.\<close>

record LineFragmentMatch =
  LineOffset :: goInt
  MatchLength :: goInt

record LineMatch =
  Line :: string
  LineStart :: goInt
  LineEnd :: goInt
  LineNumber :: goInt
  LineFragments :: "LineFragmentMatch list"

record FileMatch =
  Repository :: string
  FileName :: string
  Content :: string
  Checksum :: string
  LineMatches :: "LineMatch list"

subsection \<open>Sorting\<close>

text \<open>\<open>sort.SliceStable\<close> and \<open>sort.Slice\<close> of the Go library order a slice by a \<open>less\<close>
  function; \<open>SliceStable\<close> keeps elements that \<open>less\<close> does not order in their original
  order. Both are modelled by the stable insertion sort.\<close>

fun insertSorted :: "('a \<Rightarrow> 'a \<Rightarrow> bool) \<Rightarrow> 'a \<Rightarrow> 'a list \<Rightarrow> 'a list" where
  "insertSorted lt x [] = [x]"
| "insertSorted lt x (y # ys) =
     (if lt y x then y # insertSorted lt x ys else x # y # ys)"

definition sortSliceStable :: "('a \<Rightarrow> 'a \<Rightarrow> bool) \<Rightarrow> 'a list \<Rightarrow> 'a list" where
  "sortSliceStable lt xs = foldr (insertSorted lt) xs []"

definition sortSlice :: "('a \<Rightarrow> 'a \<Rightarrow> bool) \<Rightarrow> 'a list \<Rightarrow> 'a list" where
  "sortSlice lt xs = sortSliceStable lt xs"

subsection \<open>The relevance sort of serveSearchXrefErr\<close>

text \<open>The \<open>less\<close> function handed to \<open>sort.SliceStable\<close>, on the two sites compared.\<close>

definition relevanceLess :: "ticket \<Rightarrow> fileSites \<Rightarrow> fileSites \<Rightarrow> bool" where
  "relevanceLess queryTicket a b =
     (case parseTicket (FileTicket (containingFile a)) of
        Inl err \<Rightarrow> False
      | Inr ti \<Rightarrow>
          (case parseTicket (FileTicket (containingFile b)) of
             Inl err \<Rightarrow> False
           | Inr tj \<Rightarrow>
               if repo ti \<noteq> repo tj \<and> repo ti = repo queryTicket then True
               else if repo ti \<noteq> repo tj \<and> repo tj = repo queryTicket then False
               else if repo ti = repo queryTicket \<and> path ti \<noteq> path tj
                       \<and> path ti = path queryTicket then True
               else if repo ti = repo queryTicket \<and> path ti \<noteq> path tj
                       \<and> path tj = path queryTicket then False
               else False))"

definition relevanceSort :: "ticket \<Rightarrow> fileSites list \<Rightarrow> fileSites list" where
  "relevanceSort queryTicket manyFileSites =
     sortSliceStable (relevanceLess queryTicket) manyFileSites"

text \<open>The ticket of a site, as the sort reads it: parsed from the file ticket.\<close>

definition siteTicket :: "fileSites \<Rightarrow> ticket" where
  "siteTicket s =
     (case parseTicket (FileTicket (containingFile s)) of
        Inl err \<Rightarrow> \<lparr>repo = [], path = []\<rparr>
      | Inr t \<Rightarrow> t)"

text \<open>The rank that the relevance sort orders by.\<close>

definition relevanceKey :: "ticket \<Rightarrow> fileSites \<Rightarrow> nat" where
  "relevanceKey q s =
     (if repo (siteTicket s) = repo q then (if path (siteTicket s) = path q then 0 else 1)
      else 2)"

text \<open>A site with nothing but its file ticket, for examples.\<close>

definition siteAt :: "string \<Rightarrow> fileSites" where
  "siteAt t = \<lparr>containingFile = \<lparr>FileTicket = t, DisplayName = t\<rparr>, snippets = [],
               fileChecksum = [], snippetsHash = []\<rparr>"

subsection \<open>The snippet builder of appendSearches\<close>

text \<open>The body of \<open>for _, l := range f.LineMatches\<close>: the snippet of one line match.
  \<open>l.LineFragments[0]\<close> panics on an empty fragment list.\<close>

definition lineSnippet :: "LineMatch \<Rightarrow> panic + UhSnippet" where
  "lineSnippet l =
     (case LineFragments l of
        [] \<Rightarrow> Inl IndexOutOfRange
      | firstFrag # _ \<Rightarrow>
          (let lineNum = LineNumber l - 1;
               clippedLine = Line l;
               clippedLine =
                 (if length clippedLine > 250
                  then take 30 clippedLine @ ''...line too long, clipped...''
                         @ drop (length clippedLine - 30) clippedLine
                  else clippedLine)
           in Inr \<lparr>Text = clippedLine,
                   FullSpan =
                     \<lparr>From = \<lparr>CmLine = lineNum, CmCh = 0\<rparr>,
                      To = \<lparr>CmLine = lineNum, CmCh = LineEnd l - LineStart l\<rparr>\<rparr>,
                   OccurrenceSpan =
                     \<lparr>From = \<lparr>CmLine = lineNum, CmCh = LineOffset firstFrag\<rparr>,
                      To = \<lparr>CmLine = lineNum,
                            CmCh = LineOffset firstFrag + MatchLength firstFrag\<rparr>\<rparr>\<rparr>))"

text \<open>The loop over the line matches of one file. It carries the snippets so far and
  the bytes written to the SHA-1 hasher so far.\<close>

fun lineLoop :: "LineMatch list \<Rightarrow> UhSnippet list \<times> string \<Rightarrow> panic + UhSnippet list \<times> string" where
  "lineLoop [] acc = Inr acc"
| "lineLoop (l # ls) acc =
     (case lineSnippet l of
        Inl p \<Rightarrow> Inl p
      | Inr snippet \<Rightarrow> lineLoop ls (fst acc @ [snippet], snd acc @ Line l))"

text \<open>The body of \<open>for _, f := range result.Files\<close>. \<open>sha1\<close> is the digest function of
  \<open>crypto/sha1\<close>, applied to all the bytes written.\<close>

definition fileSitesOf :: "(string \<Rightarrow> string) \<Rightarrow> FileMatch \<Rightarrow> panic + fileSites" where
  "fileSitesOf sha1 f =
     (let ticket = Repository f @ '':'' @ FileName f;
          inFile = \<lparr>FileTicket = ticket, DisplayName = ticket\<rparr>
      in case lineLoop (LineMatches f) ([], []) of
           Inl p \<Rightarrow> Inl p
         | Inr (snips, written) \<Rightarrow>
             Inr \<lparr>containingFile = inFile, snippets = snips, fileChecksum = Checksum f,
                  snippetsHash = sha1 written\<rparr>)"

fun appendSearchesLoop ::
  "(string \<Rightarrow> string) \<Rightarrow> FileMatch list \<Rightarrow> fileSites list \<Rightarrow> panic + fileSites list" where
  "appendSearchesLoop sha1 [] manyFileSites = Inr manyFileSites"
| "appendSearchesLoop sha1 (f # fs) manyFileSites =
     (case fileSitesOf sha1 f of
        Inl p \<Rightarrow> Inl p
      | Inr site \<Rightarrow> appendSearchesLoop sha1 fs (manyFileSites @ [site]))"

text \<open>Sample line matches: one with a fragment, one without, one of 300 bytes.\<close>

definition lineWithFragment :: LineMatch where
  "lineWithFragment =
     \<lparr>Line = ''foo :: Int'', LineStart = 40, LineEnd = 50, LineNumber = 3,
      LineFragments = [\<lparr>LineOffset = 0, MatchLength = 3\<rparr>]\<rparr>"

definition lineWithoutFragment :: LineMatch where
  "lineWithoutFragment =
     \<lparr>Line = ''foo :: Int'', LineStart = 40, LineEnd = 50, LineNumber = 3,
      LineFragments = []\<rparr>"

definition longLine :: LineMatch where
  "longLine = \<lparr>Line = replicate 300 CHR ''x'', LineStart = 0, LineEnd = 300, LineNumber = 1,
      LineFragments = [\<lparr>LineOffset = 100, MatchLength = 3\<rparr>]\<rparr>"

text \<open>The number of characters of a UTF-8 text: its bytes that start a character, which
  are the bytes outside the range \<open>0x80\<close> to \<open>0xBF\<close> of continuation bytes.\<close>

definition utf8Chars :: "string \<Rightarrow> nat" where
  "utf8Chars s =
     length (filter (\<lambda>c. \<not> (128 \<le> (of_char c :: nat) \<and> (of_char c :: nat) < 192)) s)"

text \<open>A line of 127 characters in 253 bytes: an \<open>x\<close> and 126 times the two bytes of an
  accented letter (U+00E9).\<close>

definition accentedLine :: LineMatch where
  "accentedLine =
     \<lparr>Line = CHR ''x'' # concat (replicate 126 [CHR 0xC3, CHR 0xA9]),
      LineStart = 0, LineEnd = 253, LineNumber = 1,
      LineFragments = [\<lparr>LineOffset = 0, MatchLength = 1\<rparr>]\<rparr>"

definition fileWith :: "LineMatch list \<Rightarrow> FileMatch" where
  "fileWith ls =
     \<lparr>Repository = ''repo1'', FileName = ''a.hs'', Content = [], Checksum = ''c1'',
      LineMatches = ls\<rparr>"

subsection \<open>The file-tree loop of serveFileTreeErr\<close>

datatype FileTree =
  FileTree (KytheUri: string) (Display: string) (OnlyGenerated: bool) (IsFile: bool)
    (Children: "FileTree list option")

record treeLocals =
  seen :: "string \<rightharpoonup> bool"
  subtrees :: "FileTree list"

text \<open>The local \<open>prefix\<close> of the loop body.\<close>

definition treePrefix :: "string \<Rightarrow> string" where
  "treePrefix topPath = (if topPath \<noteq> [] then topPath @ ''/'' else [])"

text \<open>The body of \<open>for _, f := range result.Files\<close> in the branch for a non-empty
  \<open>topRepo\<close>. \<open>relParts[0]\<close> panics on an empty slice.\<close>

definition treeStep :: "string \<Rightarrow> string \<Rightarrow> treeLocals \<Rightarrow> FileMatch \<Rightarrow> panic + treeLocals" where
  "treeStep topRepo topPath st f =
     (if Repository f \<noteq> topRepo then Inr st
      else
        (let prefix = treePrefix topPath;
             relative = stringsTrimPrefix (FileName f) prefix;
             relParts = stringsSplit CHR ''/'' relative
         in case relParts of
              [] \<Rightarrow> Inl IndexOutOfRange
            | currentPart # _ \<Rightarrow>
                (let isFile = (length relParts = 1)
                 in case seen st currentPart of
                      Some _ \<Rightarrow> Inr st
                    | None \<Rightarrow>
                        Inr \<lparr>seen = (seen st)(currentPart \<mapsto> True),
                             subtrees = subtrees st
                               @ [FileTree (Repository f @ '':'' @ prefix @ currentPart)
                                    currentPart False isFile None]\<rparr>)))"

fun treeLoop :: "string \<Rightarrow> string \<Rightarrow> treeLocals \<Rightarrow> FileMatch list \<Rightarrow> panic + treeLocals" where
  "treeLoop topRepo topPath st [] = Inr st"
| "treeLoop topRepo topPath st (f # fs) =
     (case treeStep topRepo topPath st f of
        Inl p \<Rightarrow> Inl p
      | Inr st' \<Rightarrow> treeLoop topRepo topPath st' fs)"

text \<open>The \<open>less\<close> function handed to \<open>sort.Slice\<close>. Go compares strings byte by byte,
  which is the lexicographic order of \<open>string\<close> here.\<close>

definition treeLess :: "FileTree \<Rightarrow> FileTree \<Rightarrow> bool" where
  "treeLess a b = (if IsFile a \<noteq> IsFile b then IsFile b else Display a < Display b)"

text \<open>The entries of the backend's repository list, read in the branch for an empty
  \<open>topRepo\<close>: the name of a repository and the names of its branches (declared by the
  zoekt library).\<close>

record Repo =
  Name :: string
  Branches :: "string list"

text \<open>The loop over \<open>result.Repos\<close>: a node per repository without branches, and a node
  \<open>name@branch\<close> per branch otherwise.\<close>

definition repoNodes :: "Repo list \<Rightarrow> FileTree list" where
  "repoNodes repos =
     concat (map (\<lambda>r. if length (Branches r) = 0
                       then [FileTree (Name r) (Name r) False False None]
                       else map (\<lambda>b. FileTree (Name r @ ''@'' @ b) (Name r @ ''@'' @ b)
                                        False False None)
                              (Branches r))
               repos)"

text \<open>The children that the handler encodes: from the repository list \<open>repos\<close> of the
  backend when \<open>topRepo\<close> is empty, from the files \<open>files\<close> that the backend returned for
  the query otherwise.\<close>

definition fileTreeChildren ::
  "string \<Rightarrow> string \<Rightarrow> Repo list \<Rightarrow> FileMatch list \<Rightarrow> panic + FileTree list" where
  "fileTreeChildren topRepo topPath repos files =
     (if topRepo = [] then Inr (sortSlice treeLess (repoNodes repos))
      else
        (case treeLoop topRepo topPath \<lparr>seen = Map.empty, subtrees = []\<rparr> files of
           Inl p \<Rightarrow> Inl p
         | Inr st \<Rightarrow> Inr (sortSlice treeLess (subtrees st))))"

text \<open>The path of a file relative to the requested root, and its first segment.\<close>

definition relativeOf :: "string \<Rightarrow> FileMatch \<Rightarrow> string" where
  "relativeOf topPath f = stringsTrimPrefix (FileName f) (treePrefix topPath)"

definition segmentOf :: "string \<Rightarrow> FileMatch \<Rightarrow> string" where
  "segmentOf topPath f = takeWhile (\<lambda>c. c \<noteq> CHR ''/'') (relativeOf topPath f)"

text \<open>Sample files: \<open>treeFiles\<close> has four files of \<open>repo1\<close> under \<open>dir\<close> and one of
  a repository whose name contains \<open>repo1\<close>.\<close>

definition fileIn :: "string \<Rightarrow> string \<Rightarrow> FileMatch" where
  "fileIn r n =
     \<lparr>Repository = r, FileName = n, Content = n, Checksum = [], LineMatches = []\<rparr>"

text \<open>The node specified for a file: named by the first segment of its relative path, a
  file node when the relative path has no further \<open>/\<close>, with its children unknown.\<close>

definition nodeOf :: "string \<Rightarrow> FileMatch \<Rightarrow> FileTree" where
  "nodeOf topPath f =
     FileTree (Repository f @ '':'' @ treePrefix topPath @ segmentOf topPath f)
       (segmentOf topPath f) False (CHR ''/'' \<notin> set (relativeOf topPath f)) None"

text \<open>The elements of a list that are the first with their value of \<open>key\<close>, in order.\<close>

definition firstBy :: "('a \<Rightarrow> 'k) \<Rightarrow> 'a list \<Rightarrow> 'a list" where
  "firstBy key xs =
     map (\<lambda>i. xs ! i) (filter (\<lambda>i. key (xs ! i) \<notin> key ` set (take i xs)) [0..<length xs])"

text \<open>The key that \<open>treeLess\<close> orders by: directories before files, then the name.\<close>

definition treeKey :: "FileTree \<Rightarrow> bool \<times> string" where
  "treeKey c = (IsFile c, Display c)"

definition treeFiles :: "FileMatch list" where
  "treeFiles = [fileIn ''repo1'' ''dir/b.txt'', fileIn ''repo1'' ''dir/c/x.go'',
     fileIn ''repo1-fork'' ''dir/zz'', fileIn ''repo1'' ''dir/a/y.go'', fileIn ''repo1'' ''dir/c/z.go'']"

subsection \<open>The result loop of serveSourceErr\<close>

datatype handlerError = RequestedFileNotInResponse string

text \<open>The loop returns the content of the first file of the requested repository; the
  error carries the query \<open>rq\<close>. (\<open>repo'\<close> is the local \<open>repo\<close> of the handler.)\<close>

fun sourceLoop :: "string \<Rightarrow> string \<Rightarrow> FileMatch list \<Rightarrow> handlerError + string" where
  "sourceLoop repo' rq [] = Inl (RequestedFileNotInResponse rq)"
| "sourceLoop repo' rq (f # fs) =
     (if Repository f \<noteq> repo' then sourceLoop repo' rq fs else Inr (Content f))"

subsection \<open>The declaration pass of serveSearchXrefErr\<close>

text \<open>The expression handed to \<open>regexp.MustCompile\<close>. In the Go source every backslash
  of the pattern is written \<open>\\\<close>; \<open>bs\<close> is that one byte.\<close>

definition bs :: string where
  "bs = [CHR 0x5C]"

definition declPattern :: "string \<Rightarrow> string" where
  "declPattern selection =
     ''^((^'' @ selection @ bs @ ''s*($|::))|('' @ bs @ ''s+[{,]'' @ bs @ ''s*'' @ selection
       @ bs @ ''s*::)|(data'' @ bs @ ''s+'' @ selection @ bs @ ''b)|('' @ bs @ ''s+[=|]'' @ bs
       @ ''s*'' @ selection @ ''))''"

text \<open>The two loops over the sites and their snippets append to \<open>declSites\<close> a copy of
  the site, holding that one snippet, for every snippet whose text matches. The copy
  keeps the checksum and the snippets hash of the site.\<close>

fun snippetLoop ::
  "(string \<Rightarrow> bool) \<Rightarrow> fileSites \<Rightarrow> UhSnippet list \<Rightarrow> fileSites list \<Rightarrow> fileSites list" where
  "snippetLoop matchString fs [] declSites = declSites"
| "snippetLoop matchString fs (s # ss) declSites =
     snippetLoop matchString fs ss
       (if matchString (Text s) then declSites @ [fs\<lparr>snippets := [s]\<rparr>] else declSites)"

fun declLoop ::
  "(string \<Rightarrow> bool) \<Rightarrow> fileSites list \<Rightarrow> fileSites list \<Rightarrow> fileSites list" where
  "declLoop matchString [] declSites = declSites"
| "declLoop matchString (fs # manyFileSites) declSites =
     declLoop matchString manyFileSites (snippetLoop matchString fs (snippets fs) declSites)"

text \<open>The group errors of \<open>regexp.Compile\<close>. The parser of the Go library
  (\<open>regexp/syntax\<close>, with the Perl flags that \<open>regexp.Compile\<close> sets) reads an expression
  from left to right and keeps the open groups on a stack: a \<open>)\<close> without an open group
  is the error \<open>unexpected )\<close>, and a group still open at the end of the expression is the
  error \<open>missing closing )\<close>. A parenthesis neither opens nor closes a group behind a
  backslash, in a text quoted by \<open>\Q\<close>, or inside a bracket expression.

  \<open>scanGroups\<close> follows the parser, with the number of open groups, through the
  expressions whose reading needs no more than this: a backslash takes the next byte with
  it, and a bracket expression runs from \<open>[\<close> or \<open>[^\<close> to the next \<open>]\<close>. It is true
  when it meets one of the two errors. It makes no statement, and is false, from the
  point where the expression has a \<open>\Q\<close>, or a bracket expression with a backslash or a
  \<open>[\<close> inside or with \<open>]\<close> as its first member (there a \<open>]\<close> need not close the
  bracket expression), and where the parser fails for another reason (a bracket
  expression that does not end, a backslash at the end).\<close>

datatype scanMode = Top | Esc | ClassOpen | ClassNeg | InClass

fun scanGroups :: "scanMode \<Rightarrow> nat \<Rightarrow> string \<Rightarrow> bool" where
  "scanGroups m d [] = (m = Top \<and> d \<noteq> 0)"
| "scanGroups Top d (c # cs) =
     (if c = CHR ''('' then scanGroups Top (Suc d) cs
      else if c = CHR '')'' then (case d of 0 \<Rightarrow> True | Suc d' \<Rightarrow> scanGroups Top d' cs)
      else if c = CHR ''['' then scanGroups ClassOpen d cs
      else if c = CHR 0x5C then scanGroups Esc d cs
      else scanGroups Top d cs)"
| "scanGroups Esc d (c # cs) =
     (if c = CHR ''Q'' then False else scanGroups Top d cs)"
| "scanGroups ClassOpen d (c # cs) =
     (if c = CHR ''^'' then scanGroups ClassNeg d cs
      else if c = CHR '']'' \<or> c = CHR ''['' \<or> c = CHR 0x5C then False
      else scanGroups InClass d cs)"
| "scanGroups ClassNeg d (c # cs) =
     (if c = CHR '']'' \<or> c = CHR ''['' \<or> c = CHR 0x5C then False
      else scanGroups InClass d cs)"
| "scanGroups InClass d (c # cs) =
     (if c = CHR '']'' then scanGroups Top d cs
      else if c = CHR ''['' \<or> c = CHR 0x5C then False
      else scanGroups InClass d cs)"

definition groupError :: "string \<Rightarrow> bool" where
  "groupError p = scanGroups Top 0 p"

text \<open>\<open>regexp.Compile\<close>: nothing for an expression with a group error, and otherwise what
  the rest of the library gives, which is the matcher of the expression (its
  \<open>MatchString\<close>) or nothing for an error that \<open>scanGroups\<close> does not state. The rest of
  the library is the parameter \<open>regexpParse\<close>.\<close>

definition regexpCompile ::
  "(string \<Rightarrow> (string \<Rightarrow> bool) option) \<Rightarrow> string \<Rightarrow> (string \<Rightarrow> bool) option" where
  "regexpCompile regexpParse p = (if groupError p then None else regexpParse p)"

text \<open>\<open>regexp.MustCompile\<close> panics when \<open>regexp.Compile\<close> gives an error; the loops run
  after it, from the empty \<open>declSites\<close>.\<close>

definition declSitesOf ::
  "(string \<Rightarrow> (string \<Rightarrow> bool) option) \<Rightarrow> string \<Rightarrow> fileSites list \<Rightarrow> panic + fileSites list" where
  "declSitesOf regexpParse selection manyFileSites =
     (case regexpCompile regexpParse (declPattern selection) of
        None \<Rightarrow> Inl RegexpCompile
      | Some matchString \<Rightarrow> Inr (declLoop matchString manyFileSites []))"

text \<open>A sample site with three snippets, and a stand-in for a matcher that accepts the
  texts starting with \<open>foo\<close>.\<close>

definition snippetOf :: "string \<Rightarrow> UhSnippet" where
  "snippetOf t =
     \<lparr>Text = t,
      FullSpan = \<lparr>From = \<lparr>CmLine = 0, CmCh = 0\<rparr>, To = \<lparr>CmLine = 0, CmCh = 0\<rparr>\<rparr>,
      OccurrenceSpan = \<lparr>From = \<lparr>CmLine = 0, CmCh = 0\<rparr>, To = \<lparr>CmLine = 0, CmCh = 0\<rparr>\<rparr>\<rparr>"

definition siteWithSnippets :: fileSites where
  "siteWithSnippets =
     \<lparr>containingFile = \<lparr>FileTicket = ''r:a.hs'', DisplayName = ''r:a.hs''\<rparr>,
      snippets = [snippetOf ''foo :: Int'', snippetOf ''bar = foo'', snippetOf ''foo = 1''],
      fileChecksum = ''c1'', snippetsHash = ''h1''\<rparr>"

definition startsWithFoo :: "string \<Rightarrow> bool" where
  "startsWithFoo t = (take 3 t = ''foo'')"

subsection \<open>Ticket round trip\<close>

lemma stringsSplitN2_at_colon:
  "sep \<notin> set r \<Longrightarrow> stringsSplitN2 sep (r @ sep # p) = [r, p]"
  by (simp add: stringsSplitN2_def takeWhile_append2 dropWhile_append2
      takeWhile_append dropWhile_append)

lemma parseTicket_format:
  "CHR '':'' \<notin> set r \<Longrightarrow> parseTicket (r @ '':'' @ p) = Inr \<lparr>repo = r, path = p\<rparr>"
  by (simp add: parseTicket_def stringsSplitN2_at_colon)

text \<open>
  Claim C7. For every complete ticket (repository and path both non-empty) in which
  neither field contains a colon, parsing the text \<open>repository + ":" + path\<close> gives the
  ticket back.
\<close>

theorem parseTicket_roundtrip:
  assumes "complete t"
    and "CHR '':'' \<notin> set (repo t)"
    and "CHR '':'' \<notin> set (path t)"
  shows "parseTicket (formatTicket t) = Inr t"
  using parseTicket_format [OF assms(2), of "path t"] by (simp add: formatTicket_def)

theorem parseTicket_roundtrip_witness:
  "complete \<lparr>repo = ''repo1'', path = ''dir/a.go''\<rparr>
   \<and> CHR '':'' \<notin> set ''repo1'' \<and> CHR '':'' \<notin> set ''dir/a.go''
   \<and> parseTicket ''repo1:dir/a.go'' = Inr \<lparr>repo = ''repo1'', path = ''dir/a.go''\<rparr>"
proof -
  have c: "complete \<lparr>repo = ''repo1'', path = ''dir/a.go''\<rparr>"
    by (simp add: complete_def)
  have r: "CHR '':'' \<notin> set (repo \<lparr>repo = ''repo1'', path = ''dir/a.go''\<rparr>)"
    by simp
  have p: "CHR '':'' \<notin> set (path \<lparr>repo = ''repo1'', path = ''dir/a.go''\<rparr>)"
    by simp
  from parseTicket_roundtrip [OF c r p] c show ?thesis
    by (simp add: formatTicket_def)
qed

subsection \<open>The loop of groupSites in closed form\<close>

lemma find_snoc:
  "find P (xs @ [x]) =
     (case find P xs of None \<Rightarrow> (if P x then Some x else None) | Some y \<Rightarrow> Some y)"
  by (induction xs) auto

lemma find_None_iff_key: "(find (\<lambda>c. key c = k) xs = None) = (k \<notin> key ` set xs)"
  by (auto simp: find_None_iff)

lemma find_first_index:
  "j < length xs \<Longrightarrow> P (xs ! j) \<Longrightarrow> \<forall>k<j. \<not> P (xs ! k) \<Longrightarrow> find P xs = Some (xs ! j)"
proof (induction xs arbitrary: j)
  case Nil
  then show ?case by simp
next
  case (Cons x xs)
  show ?case
  proof (cases j)
    case 0
    with Cons.prems show ?thesis by simp
  next
    case (Suc j')
    with Cons.prems have "\<not> P x" by auto
    moreover have "find P xs = Some (xs ! j')"
      using Cons.prems Suc by (intro Cons.IH) auto
    ultimately show ?thesis using Suc by simp
  qed
qed

lemma firstSeen_snoc:
  "firstSeen (xs @ [x]) = (if x \<in> set xs then firstSeen xs else firstSeen xs @ [x])"
  by (simp add: firstSeen_def)

lemma set_firstSeen: "set (firstSeen xs) = set xs"
  by (simp add: firstSeen_def)

lemma distinct_firstSeen: "distinct (firstSeen xs)"
  by (simp add: firstSeen_def)

lemma canonicalOf_snoc_old: "i < length xs \<Longrightarrow> canonicalOf (xs @ [x]) i = canonicalOf xs i"
  by (simp add: canonicalOf_def nth_append)

lemma emittedSite_snoc_old: "i < length xs \<Longrightarrow> emittedSite (xs @ [x]) i = emittedSite xs i"
  by (simp add: emittedSite_def canonicalOf_snoc_old nth_append)

lemma emittedSite_snoc_new:
  "emittedSite (xs @ [x]) (length xs) =
     \<lparr>ContainingFile = containingFile x,
      IsDupOf = map_option containingFile (find (\<lambda>c. fileChecksum c = fileChecksum x) xs),
      Snippets = snippets x\<rparr>"
  by (simp add: emittedSite_def canonicalOf_def)

lemma filter_upt_snoc_old:
  "filter (\<lambda>i. P ((xs @ [x]) ! i)) [0..<length xs] = filter (\<lambda>i. P (xs ! i)) [0..<length xs]"
  by (rule filter_cong) (auto simp: nth_append)

lemma groupMembers_snoc:
  "groupMembers (xs @ [x]) h =
     groupMembers xs h @ (if snippetsHash x = h then [emittedSite (xs @ [x]) (length xs)] else [])"
proof -
  have "map (emittedSite (xs @ [x])) (filter (\<lambda>i. snippetsHash (xs ! i) = h) [0..<length xs])
      = map (emittedSite xs) (filter (\<lambda>i. snippetsHash (xs ! i) = h) [0..<length xs])"
    by (rule map_cong) (auto simp: emittedSite_snoc_old)
  then show ?thesis
    by (simp add: groupMembers_def filter_upt_snoc_old [where P = "\<lambda>c. snippetsHash c = h"])
qed

lemma groupMembers_absent: "h \<notin> snippetsHash ` set xs \<Longrightarrow> groupMembers xs h = []"
  by (auto simp: groupMembers_def filter_empty_conv)

lemma repeats_snoc:
  "repeats key (xs @ [x]) = repeats key xs @ (if key x \<in> key ` set xs then [length xs] else [])"
proof -
  have "filter (\<lambda>i. key ((xs @ [x]) ! i) \<in> key ` set (take i (xs @ [x]))) [0..<length xs]
      = filter (\<lambda>i. key (xs ! i) \<in> key ` set (take i xs)) [0..<length xs]"
    by (rule filter_cong) (auto simp: nth_append)
  then show ?thesis by (simp add: repeats_def)
qed

text \<open>After the sites \<open>xs\<close> the locals of the loop hold: the first displayed file of every
  checksum, the members of every hash, the hashes in first-seen order, and the counts.\<close>

lemma groupStep_closed:
  assumes "st =
     \<lparr>seenTickets = (\<lambda>k. map_option containingFile (find (\<lambda>c. fileChecksum c = k) xs)),
      contentGroups =
        (\<lambda>h. if h \<in> snippetsHash ` set xs then Some (groupMembers xs h) else None),
      contentGroupOrder = firstSeen (map snippetsHash xs),
      snipCntL = sum_list (map (\<lambda>fs. length (snippets fs)) xs),
      fileCntL = length xs,
      fileDupCntL = length (repeats fileChecksum xs),
      matchDupCntL = length (repeats snippetsHash xs)\<rparr>"
  shows "groupStep st x =
     \<lparr>seenTickets =
        (\<lambda>k. map_option containingFile (find (\<lambda>c. fileChecksum c = k) (xs @ [x]))),
      contentGroups =
        (\<lambda>h. if h \<in> snippetsHash ` set (xs @ [x]) then Some (groupMembers (xs @ [x]) h)
             else None),
      contentGroupOrder = firstSeen (map snippetsHash (xs @ [x])),
      snipCntL = sum_list (map (\<lambda>fs. length (snippets fs)) (xs @ [x])),
      fileCntL = length (xs @ [x]),
      fileDupCntL = length (repeats fileChecksum (xs @ [x])),
      matchDupCntL = length (repeats snippetsHash (xs @ [x]))\<rparr>"
proof (cases "find (\<lambda>c. fileChecksum c = fileChecksum x) xs")
  case None
  then have n: "fileChecksum x \<notin> fileChecksum ` set xs"
    by (simp add: find_None_iff_key)
  show ?thesis
    using None n
    by (auto simp: assms groupStep_def Let_def find_snoc firstSeen_snoc groupMembers_snoc
        groupMembers_absent emittedSite_snoc_new repeats_snoc fun_eq_iff
        split: option.splits)
next
  case (Some c)
  then have n: "fileChecksum x \<in> fileChecksum ` set xs"
    using find_None_iff_key [of fileChecksum "fileChecksum x" xs] by auto
  show ?thesis
    using Some n
    by (auto simp: assms groupStep_def Let_def find_snoc firstSeen_snoc groupMembers_snoc
        groupMembers_absent emittedSite_snoc_new repeats_snoc fun_eq_iff
        split: option.splits)
qed

lemma groupLoop_closed:
  "foldl groupStep groupInit xs =
     \<lparr>seenTickets = (\<lambda>k. map_option containingFile (find (\<lambda>c. fileChecksum c = k) xs)),
      contentGroups =
        (\<lambda>h. if h \<in> snippetsHash ` set xs then Some (groupMembers xs h) else None),
      contentGroupOrder = firstSeen (map snippetsHash xs),
      snipCntL = sum_list (map (\<lambda>fs. length (snippets fs)) xs),
      fileCntL = length xs,
      fileDupCntL = length (repeats fileChecksum xs),
      matchDupCntL = length (repeats snippetsHash xs)\<rparr>"
proof (induction xs rule: rev_induct)
  case Nil
  show ?case by (simp add: groupInit_def firstSeen_def repeats_def fun_eq_iff)
next
  case (snoc x xs)
  have "foldl groupStep groupInit (xs @ [x]) = groupStep (foldl groupStep groupInit xs) x"
    by simp
  also note groupStep_closed [OF snoc.IH]
  finally show ?case .
qed

lemma groupSites_closed:
  "groupSites fss =
     \<lparr>snipCnt = sum_list (map (\<lambda>fs. length (snippets fs)) fss), fileCnt = length fss,
      fileDupCnt = length (repeats fileChecksum fss),
      matchDupCnt = length (repeats snippetsHash fss),
      groups = map (\<lambda>h. \<lparr>Files = groupMembers fss h\<rparr>) (firstSeen (map snippetsHash fss))\<rparr>"
  by (simp add: groupSites_def groupLoop_closed firstSeen_def)

lemma mset_concat_filter_keys:
  "distinct hs \<Longrightarrow>
   mset (concat (map (\<lambda>h. filter (\<lambda>x. f x = h) xs) hs)) = mset (filter (\<lambda>x. f x \<in> set hs) xs)"
proof (induction hs)
  case Nil
  show ?case by simp
next
  case (Cons h hs)
  have "mset (filter (\<lambda>x. f x = h) xs) + mset (filter (\<lambda>x. f x \<in> set hs) xs)
      = mset (filter (\<lambda>x. f x = h \<or> f x \<in> set hs) xs)"
    using Cons.prems by (induction xs) auto
  with Cons show ?case by simp
qed

lemma mset_groupMembers:
  "mset (concat (map (groupMembers fss) (firstSeen (map snippetsHash fss))))
     = mset (map (emittedSite fss) [0..<length fss])"
proof -
  let ?is = "[0..<length fss]"
  let ?hs = "firstSeen (map snippetsHash fss)"
  have "concat (map (groupMembers fss) ?hs)
      = map (emittedSite fss) (concat (map (\<lambda>h. filter (\<lambda>i. snippetsHash (fss ! i) = h) ?is) ?hs))"
    by (simp add: groupMembers_def [abs_def] map_concat comp_def)
  moreover have "mset (concat (map (\<lambda>h. filter (\<lambda>i. snippetsHash (fss ! i) = h) ?is) ?hs))
      = mset (filter (\<lambda>i. snippetsHash (fss ! i) \<in> set ?hs) ?is)"
    by (rule mset_concat_filter_keys) (rule distinct_firstSeen)
  moreover have "filter (\<lambda>i. snippetsHash (fss ! i) \<in> set ?hs) ?is = ?is"
    by (simp add: set_firstSeen)
  ultimately show ?thesis by (metis mset_map)
qed

lemma canonicalOf_first:
  "\<forall>j<i. fileChecksum (fss ! j) \<noteq> fileChecksum (fss ! i) \<Longrightarrow> i < length fss \<Longrightarrow>
   canonicalOf fss i = None"
  by (auto simp: canonicalOf_def find_None_iff in_set_conv_nth)

lemma canonicalOf_later:
  assumes "i < length fss" "j < i" "fileChecksum (fss ! j) = fileChecksum (fss ! i)"
    and "\<forall>k<j. fileChecksum (fss ! k) \<noteq> fileChecksum (fss ! i)"
  shows "canonicalOf fss i = Some (containingFile (fss ! j))"
proof -
  have "find (\<lambda>c. fileChecksum c = fileChecksum (fss ! i)) (take i fss) = Some (take i fss ! j)"
    using assms by (intro find_first_index) auto
  with assms show ?thesis by (simp add: canonicalOf_def)
qed

subsection \<open>File-content dedup\<close>

text \<open>
  Claim C1. For every input list of \<open>groupSites\<close>: the sites of the groups are, one for
  one, the sites \<open>emittedSite fss i\<close> of the input positions; each carries the file and
  the snippets of its input; the site of the first position with a given checksum has
  \<open>IsDupOf\<close> absent; the site of every later position with that checksum points at the
  displayed file of that first position; and \<open>fileDupCnt\<close> (reported as \<open>rcDupFiles\<close>) is
  the number of positions that repeat an earlier checksum.
\<close>

theorem groupSites_dedup:
  "mset (concat (map Files (groups (groupSites fss))))
     = mset (map (emittedSite fss) [0..<length fss])
   \<and> (\<forall>i<length fss. ContainingFile (emittedSite fss i) = containingFile (fss ! i)
         \<and> Snippets (emittedSite fss i) = snippets (fss ! i))
   \<and> (\<forall>i<length fss. (\<forall>j<i. fileChecksum (fss ! j) \<noteq> fileChecksum (fss ! i))
         \<longrightarrow> IsDupOf (emittedSite fss i) = None)
   \<and> (\<forall>i<length fss. \<forall>j<i.
         fileChecksum (fss ! j) = fileChecksum (fss ! i)
         \<and> (\<forall>k<j. fileChecksum (fss ! k) \<noteq> fileChecksum (fss ! i))
         \<longrightarrow> IsDupOf (emittedSite fss i) = Some (containingFile (fss ! j)))
   \<and> fileDupCnt (groupSites fss) = length (repeats fileChecksum fss)"
proof -
  have "concat (map Files (groups (groupSites fss)))
      = concat (map (groupMembers fss) (firstSeen (map snippetsHash fss)))"
    by (simp add: groupSites_closed comp_def)
  then have "mset (concat (map Files (groups (groupSites fss))))
      = mset (map (emittedSite fss) [0..<length fss])"
    by (simp only: mset_groupMembers)
  moreover have "\<forall>i<length fss. ContainingFile (emittedSite fss i) = containingFile (fss ! i)
         \<and> Snippets (emittedSite fss i) = snippets (fss ! i)"
    by (simp add: emittedSite_def)
  moreover have "\<forall>i<length fss. (\<forall>j<i. fileChecksum (fss ! j) \<noteq> fileChecksum (fss ! i))
         \<longrightarrow> IsDupOf (emittedSite fss i) = None"
    by (simp add: emittedSite_def canonicalOf_first)
  moreover have "\<forall>i<length fss. \<forall>j<i.
         fileChecksum (fss ! j) = fileChecksum (fss ! i)
         \<and> (\<forall>k<j. fileChecksum (fss ! k) \<noteq> fileChecksum (fss ! i))
         \<longrightarrow> IsDupOf (emittedSite fss i) = Some (containingFile (fss ! j))"
    by (simp add: emittedSite_def canonicalOf_later)
  moreover have "fileDupCnt (groupSites fss) = length (repeats fileChecksum fss)"
    by (simp add: groupSites_closed)
  ultimately show ?thesis by blast
qed

theorem groupSites_dedup_witness:
  "IsDupOf (emittedSite [siteA, siteC, siteB] 0) = None
   \<and> IsDupOf (emittedSite [siteA, siteC, siteB] 2) = Some (containingFile siteA)
   \<and> fileDupCnt (groupSites [siteA, siteC, siteB]) = 1
   \<and> length (concat (map Files (groups (groupSites [siteA, siteC, siteB])))) = 3"
proof -
  let ?fss = "[siteA, siteC, siteB]"
  note t = groupSites_dedup [of ?fss]
  from t have A: "\<forall>i<length ?fss. (\<forall>j<i. fileChecksum (?fss ! j) \<noteq> fileChecksum (?fss ! i))
         \<longrightarrow> IsDupOf (emittedSite ?fss i) = None"
    by (elim conjE)
  from t have B: "\<forall>i<length ?fss. \<forall>j<i.
         fileChecksum (?fss ! j) = fileChecksum (?fss ! i)
         \<and> (\<forall>k<j. fileChecksum (?fss ! k) \<noteq> fileChecksum (?fss ! i))
         \<longrightarrow> IsDupOf (emittedSite ?fss i) = Some (containingFile (?fss ! j))"
    by (elim conjE)
  from t have C: "fileDupCnt (groupSites ?fss) = length (repeats fileChecksum ?fss)"
    by (elim conjE)
  from t have D: "mset (concat (map Files (groups (groupSites ?fss))))
     = mset (map (emittedSite ?fss) [0..<length ?fss])"
    by (elim conjE)
  have i0: "(0::nat) < length ?fss" and i2: "(2::nat) < length ?fss" and j0: "(0::nat) < 2"
    by simp_all
  have first: "\<forall>j<0. fileChecksum (?fss ! j) \<noteq> fileChecksum (?fss ! 0)"
    by simp
  have later: "fileChecksum (?fss ! 0) = fileChecksum (?fss ! 2)
      \<and> (\<forall>k<0. fileChecksum (?fss ! k) \<noteq> fileChecksum (?fss ! 2))"
    by (simp add: siteA_def siteB_def)
  from A [THEN spec, THEN mp, THEN mp, OF i0 first] have a: "IsDupOf (emittedSite ?fss 0) = None" .
  from B [THEN spec, THEN mp, OF i2, THEN spec, THEN mp, OF j0, THEN mp, OF later]
  have b: "IsDupOf (emittedSite ?fss 2) = Some (containingFile siteA)"
    by simp
  have c: "length (repeats fileChecksum ?fss) = 1"
    by (simp add: repeats_def siteA_def siteB_def siteC_def upt_rec)
  from D have "size (mset (concat (map Files (groups (groupSites ?fss)))))
      = size (mset (map (emittedSite ?fss) [0..<length ?fss]))"
    by simp
  then have d: "length (concat (map Files (groups (groupSites ?fss)))) = 3"
    by (simp only: size_mset length_map length_upt) simp
  from a b c d C show ?thesis by simp
qed

subsection \<open>The two duplicate counters\<close>

text \<open>
  Claim C4 says that \<open>matchDupCnt \<ge> fileDupCnt\<close> for every input, as the comment on
  \<open>UhRefCounts.DupMatches\<close> does. Two sites with one checksum and two snippets hashes
  (two copies of a file matched by their different names) count one duplicate file and
  no duplicate match.
\<close>

theorem groupSites_dupFiles_exceeds_dupMatches:
  "fileDupCnt (groupSites [siteA, siteB]) = 1 \<and> matchDupCnt (groupSites [siteA, siteB]) = 0"
  by (simp add: groupSites_def groupStep_def groupInit_def siteA_def siteB_def Let_def)

text \<open>The relation of the comment holds for inputs in which equal checksums come with
  equal snippets hashes.\<close>

lemma groupSites_counts_ordered:
  assumes "\<forall>a\<in>set fss. \<forall>b\<in>set fss. fileChecksum a = fileChecksum b \<longrightarrow> snippetsHash a = snippetsHash b"
  shows "fileDupCnt (groupSites fss) \<le> matchDupCnt (groupSites fss)"
proof -
  have "set (repeats fileChecksum fss) \<subseteq> set (repeats snippetsHash fss)"
  proof
    fix i
    assume "i \<in> set (repeats fileChecksum fss)"
    then have i: "i < length fss"
      and "fileChecksum (fss ! i) \<in> fileChecksum ` set (take i fss)"
      by (auto simp: repeats_def)
    then obtain a where a: "a \<in> set (take i fss)" "fileChecksum a = fileChecksum (fss ! i)"
      by auto
    from a(1) have "a \<in> set fss" by (rule in_set_takeD)
    with a(2) i assms have "snippetsHash a = snippetsHash (fss ! i)"
      by (metis nth_mem)
    with a(1) have "snippetsHash (fss ! i) \<in> snippetsHash ` set (take i fss)"
      by (metis imageI)
    with i show "i \<in> set (repeats snippetsHash fss)"
      by (simp add: repeats_def)
  qed
  moreover have "distinct (repeats fileChecksum fss)" "distinct (repeats snippetsHash fss)"
    by (simp_all add: repeats_def)
  ultimately have "length (repeats fileChecksum fss) \<le> length (repeats snippetsHash fss)"
    by (metis card_mono distinct_card List.finite_set)
  then show ?thesis by (simp add: groupSites_closed)
qed

subsection \<open>The sorts in terms of keys\<close>

lemma relevanceLess_key: "relevanceLess q a b = (relevanceKey q a < relevanceKey q b)"
  by (auto simp: relevanceLess_def relevanceKey_def siteTicket_def parseTicket_def Let_def)

lemma insertSorted_key:
  "insertSorted (\<lambda>a b. k a < k b) x ys = insort_key k x ys"
  by (induction ys) (auto simp: not_less)

lemma sortSliceStable_key:
  "sortSliceStable (\<lambda>a b. k a < k b) xs = sort_key k xs"
  by (induction xs) (simp_all add: sortSliceStable_def insertSorted_key sort_key_def)

lemma sorted_three_way:
  fixes k :: "'a \<Rightarrow> nat"
  shows "sorted (map k ys) \<Longrightarrow> \<forall>y\<in>set ys. k y \<le> 2 \<Longrightarrow>
    ys = filter (\<lambda>y. k y = 0) ys @ filter (\<lambda>y. k y = 1) ys @ filter (\<lambda>y. k y = 2) ys"
proof (induction ys)
  case Nil
  show ?case by simp
next
  case (Cons y ys)
  then have ih: "ys = filter (\<lambda>y. k y = 0) ys @ filter (\<lambda>y. k y = 1) ys @ filter (\<lambda>y. k y = 2) ys"
    and le: "\<forall>z\<in>set ys. k y \<le> k z" and y2: "k y \<le> 2" and z2: "\<forall>z\<in>set ys. k z \<le> 2"
    by auto
  consider "k y = 0" | "k y = 1" | "k y = 2" using y2 by linarith
  then show ?case
  proof cases
    case 1
    with ih show ?thesis by simp
  next
    case 2
    with le have "filter (\<lambda>y. k y = 0) ys = []"
      by (auto simp: filter_empty_conv)
    with 2 ih show ?thesis by simp
  next
    case 3
    with le z2 have "filter (\<lambda>y. k y = 0) ys = []" "filter (\<lambda>y. k y = 1) ys = []"
      by (auto simp: filter_empty_conv)
    with 3 ih show ?thesis by simp
  qed
qed

lemma relevanceSort_partition_key:
  "relevanceSort q fss =
     filter (\<lambda>s. relevanceKey q s = 0) fss @ filter (\<lambda>s. relevanceKey q s = 1) fss
       @ filter (\<lambda>s. relevanceKey q s = 2) fss"
proof -
  let ?k = "relevanceKey q"
  let ?ys = "sort_key ?k fss"
  have eq: "relevanceSort q fss = ?ys"
    by (simp add: relevanceSort_def relevanceLess_key [abs_def] sortSliceStable_key)
  have "sorted (map ?k ?ys)" by simp
  moreover have "\<forall>y\<in>set ?ys. ?k y \<le> 2" by (simp add: relevanceKey_def)
  ultimately have "?ys = filter (\<lambda>y. ?k y = 0) ?ys @ filter (\<lambda>y. ?k y = 1) ?ys
      @ filter (\<lambda>y. ?k y = 2) ?ys"
    by (rule sorted_three_way)
  moreover have "filter (\<lambda>y. ?k y = c) ?ys = filter (\<lambda>y. ?k y = c) fss" for c
    using sort_key_stable [of ?k c fss] by (simp add: eq_commute)
  ultimately show ?thesis using eq by simp
qed

text \<open>The relevance sort does not depend on the sorting algorithm: every stable
  arrangement of the sites in the order of the rank is its result.\<close>

lemma stable_sort_unique:
  assumes "mset ys = mset xs"
    and "sorted (map (relevanceKey q) ys)"
    and "\<forall>k. filter (\<lambda>s. relevanceKey q s = k) ys = filter (\<lambda>s. relevanceKey q s = k) xs"
  shows "relevanceSort q xs = ys"
proof -
  have "sort_key (relevanceKey q) xs = ys"
    using assms(1) _ assms(2)
  proof (rule properties_for_sort_key)
    fix k assume "k \<in> set ys"
    from assms(3) [THEN spec, of "relevanceKey q k"]
    show "filter (\<lambda>x. relevanceKey q k = relevanceKey q x) ys
        = filter (\<lambda>x. relevanceKey q k = relevanceKey q x) xs"
      by (simp add: eq_commute)
  qed
  then show ?thesis
    by (simp add: relevanceSort_def relevanceLess_key [abs_def] sortSliceStable_key)
qed

subsection \<open>The file-tree loop in closed form\<close>

lemma stringsSplit_shape:
  "\<exists>ps. stringsSplit sep s = takeWhile (\<lambda>c. c \<noteq> sep) s # ps \<and> (ps = []) = (sep \<notin> set s)"
  by (induction s) auto

lemma treeStep_closed:
  "treeStep topRepo topPath st f =
     Inr (if Repository f \<noteq> topRepo then st
          else (case seen st (segmentOf topPath f) of
                  Some _ \<Rightarrow> st
                | None \<Rightarrow>
                    \<lparr>seen = (seen st)(segmentOf topPath f \<mapsto> True),
                     subtrees = subtrees st @ [nodeOf topPath f]\<rparr>))"
proof -
  obtain ps where ps: "stringsSplit CHR ''/'' (relativeOf topPath f) = segmentOf topPath f # ps"
    "(ps = []) = (CHR ''/'' \<notin> set (relativeOf topPath f))"
    using stringsSplit_shape [of "CHR ''/''" "relativeOf topPath f"]
    by (auto simp: segmentOf_def)
  show ?thesis
    using ps
    by (auto simp: treeStep_def Let_def relativeOf_def [symmetric] nodeOf_def
        split: option.splits)
qed

lemma treeLoop_snoc:
  "treeLoop topRepo topPath st (xs @ [x]) =
     (case treeLoop topRepo topPath st xs of
        Inl p \<Rightarrow> Inl p
      | Inr st' \<Rightarrow> treeStep topRepo topPath st' x)"
  by (induction xs arbitrary: st) (auto split: sum.splits)

lemma firstBy_snoc:
  "firstBy key (xs @ [x]) = firstBy key xs @ (if key x \<in> key ` set xs then [] else [x])"
proof -
  have "filter (\<lambda>i. key ((xs @ [x]) ! i) \<notin> key ` set (take i (xs @ [x]))) [0..<length xs]
      = filter (\<lambda>i. key (xs ! i) \<notin> key ` set (take i xs)) [0..<length xs]"
    by (rule filter_cong) (auto simp: nth_append)
  moreover have "map (\<lambda>i. (xs @ [x]) ! i) (filter (\<lambda>i. key (xs ! i) \<notin> key ` set (take i xs)) [0..<length xs])
      = map (\<lambda>i. xs ! i) (filter (\<lambda>i. key (xs ! i) \<notin> key ` set (take i xs)) [0..<length xs])"
    by (rule map_cong) (auto simp: nth_append)
  ultimately show ?thesis by (simp add: firstBy_def)
qed

lemma map_key_firstBy: "map key (firstBy key xs) = firstSeen (map key xs)"
proof (induction xs rule: rev_induct)
  case Nil
  show ?case by (simp add: firstBy_def firstSeen_def)
next
  case (snoc x xs)
  then show ?case by (simp add: firstBy_snoc firstSeen_snoc)
qed

lemma firstBy_find:
  assumes "e \<in> set (firstBy key xs)"
  shows "find (\<lambda>f. key f = key e) xs = Some e"
proof -
  from assms have "e \<in> (\<lambda>i. xs ! i) ` set (filter (\<lambda>i. key (xs ! i) \<notin> key ` set (take i xs)) [0..<length xs])"
    by (simp only: firstBy_def set_map)
  then obtain i where m: "i \<in> set (filter (\<lambda>i. key (xs ! i) \<notin> key ` set (take i xs)) [0..<length xs])"
    and e: "e = xs ! i"
    by (rule imageE)
  from m have i: "i < length xs" and n: "key (xs ! i) \<notin> key ` set (take i xs)"
    by simp_all
  have "\<forall>k<i. \<not> key (xs ! k) = key (xs ! i)"
  proof (intro allI impI)
    fix k assume k: "k < i"
    with i have "k < length (take i xs)" by simp
    then have "take i xs ! k \<in> set (take i xs)" by (rule nth_mem)
    with k have "xs ! k \<in> set (take i xs)" by simp
    then have "key (xs ! k) \<in> key ` set (take i xs)" by (rule imageI)
    with n show "\<not> key (xs ! k) = key (xs ! i)" by metis
  qed
  with i have "find (\<lambda>f. key f = key (xs ! i)) xs = Some (xs ! i)"
    by (intro find_first_index) simp_all
  with e show ?thesis by simp
qed

lemma treeLoop_closed:
  "treeLoop topRepo topPath \<lparr>seen = Map.empty, subtrees = []\<rparr> xs =
     Inr \<lparr>seen = (\<lambda>s. if s \<in> segmentOf topPath ` set (filter (\<lambda>f. Repository f = topRepo) xs)
                 then Some True else None),
    subtrees = map (nodeOf topPath)
                 (firstBy (segmentOf topPath) (filter (\<lambda>f. Repository f = topRepo) xs))\<rparr>"
proof (induction xs rule: rev_induct)
  case Nil
  show ?case by (simp add: firstBy_def)
next
  case (snoc x xs)
  show ?case
    by (simp add: treeLoop_snoc snoc.IH treeStep_closed firstBy_snoc fun_eq_iff)
qed

lemma treeLess_key: "treeLess a b = (treeKey a < treeKey b)"
  by (auto simp: treeLess_def treeKey_def less_prod_def)

lemma sortSlice_treeLess: "sortSlice treeLess xs = sort_key treeKey xs"
  by (simp add: sortSlice_def treeLess_key [abs_def] sortSliceStable_key)

lemma sorted_treeKey:
  "sorted (map treeKey cs) \<Longrightarrow>
     cs = filter (\<lambda>c. \<not> IsFile c) cs @ filter IsFile cs
     \<and> sorted (map Display (filter (\<lambda>c. \<not> IsFile c) cs))
     \<and> sorted (map Display (filter IsFile cs))"
proof (induction cs)
  case Nil
  show ?case by simp
next
  case (Cons c cs)
  then have ih: "cs = filter (\<lambda>c. \<not> IsFile c) cs @ filter IsFile cs"
    "sorted (map Display (filter (\<lambda>c. \<not> IsFile c) cs))"
    "sorted (map Display (filter IsFile cs))"
    and le: "\<forall>d\<in>set cs. treeKey c \<le> treeKey d"
    by auto
  show ?case
  proof (cases "IsFile c")
    case True
    with le have all: "\<forall>d\<in>set cs. IsFile d \<and> Display c \<le> Display d"
      by (auto simp: treeKey_def less_eq_prod_def)
    then have "filter (\<lambda>c. \<not> IsFile c) cs = []"
      by (auto simp: filter_empty_conv)
    with True ih all show ?thesis by auto
  next
    case False
    with le have "\<forall>d\<in>set cs. \<not> IsFile d \<longrightarrow> Display c \<le> Display d"
      by (auto simp: treeKey_def less_eq_prod_def)
    with False ih show ?thesis by auto
  qed
qed

subsection \<open>Relevance ordering\<close>

text \<open>
  Claim C3. For every list of sites and every requesting ticket, the relevance sort
  returns the sites of the ticket's repository at the ticket's path, then the other sites
  of that repository, then the sites of all other repositories, each of the three in its
  original order. So \<open>[repo2:x, repo1:pathB, repo1:pathA, repo2:y]\<close> sorts to
  \<open>[repo1:pathA, repo1:pathB, repo2:x, repo2:y]\<close> for the ticket \<open>repo1:pathA\<close>.
\<close>

theorem relevanceSort_partition:
  "relevanceSort q fss =
     filter (\<lambda>s. repo (siteTicket s) = repo q \<and> path (siteTicket s) = path q) fss
     @ filter (\<lambda>s. repo (siteTicket s) = repo q \<and> path (siteTicket s) \<noteq> path q) fss
     @ filter (\<lambda>s. repo (siteTicket s) \<noteq> repo q) fss
   \<and> relevanceSort \<lparr>repo = ''repo1'', path = ''pathA''\<rparr>
         [siteAt ''repo2:x'', siteAt ''repo1:pathB'', siteAt ''repo1:pathA'', siteAt ''repo2:y'']
       = [siteAt ''repo1:pathA'', siteAt ''repo1:pathB'', siteAt ''repo2:x'', siteAt ''repo2:y'']"
proof -
  have k0: "(relevanceKey q s = 0) = (repo (siteTicket s) = repo q \<and> path (siteTicket s) = path q)"
    and k1: "(relevanceKey q s = 1) = (repo (siteTicket s) = repo q \<and> path (siteTicket s) \<noteq> path q)"
    and k2: "(relevanceKey q s = 2) = (repo (siteTicket s) \<noteq> repo q)" for q s
    by (simp_all add: relevanceKey_def)
  have gen: "relevanceSort q fss =
     filter (\<lambda>s. repo (siteTicket s) = repo q \<and> path (siteTicket s) = path q) fss
     @ filter (\<lambda>s. repo (siteTicket s) = repo q \<and> path (siteTicket s) \<noteq> path q) fss
     @ filter (\<lambda>s. repo (siteTicket s) \<noteq> repo q) fss" for q fss
    using relevanceSort_partition_key [of q fss] by (simp only: k0 k1 k2)
  have t: "siteTicket (siteAt ''repo2:x'') = \<lparr>repo = ''repo2'', path = ''x''\<rparr>"
    "siteTicket (siteAt ''repo1:pathB'') = \<lparr>repo = ''repo1'', path = ''pathB''\<rparr>"
    "siteTicket (siteAt ''repo1:pathA'') = \<lparr>repo = ''repo1'', path = ''pathA''\<rparr>"
    "siteTicket (siteAt ''repo2:y'') = \<lparr>repo = ''repo2'', path = ''y''\<rparr>"
    by (simp_all add: siteTicket_def siteAt_def parseTicket_def stringsSplitN2_def)
  have "relevanceSort \<lparr>repo = ''repo1'', path = ''pathA''\<rparr>
         [siteAt ''repo2:x'', siteAt ''repo1:pathB'', siteAt ''repo1:pathA'', siteAt ''repo2:y'']
       = [siteAt ''repo1:pathA'', siteAt ''repo1:pathB'', siteAt ''repo2:x'', siteAt ''repo2:y'']"
    by (simp add: gen t)
  with gen show ?thesis by simp
qed

text \<open>For a site built by \<open>appendSearches\<close> from a file whose repository name has no
  colon, the ticket that the sort reads is the repository and the name of the file.\<close>

lemma siteTicket_built:
  assumes "CHR '':'' \<notin> set (Repository f)"
    and "FileTicket (containingFile site) = Repository f @ '':'' @ FileName f"
  shows "siteTicket site = \<lparr>repo = Repository f, path = FileName f\<rparr>"
  using parseTicket_format [OF assms(1), of "FileName f"] assms(2)
  by (simp add: siteTicket_def)

subsection \<open>One level of the file tree\<close>

lemma fileTreeChildren_closed:
  "topRepo \<noteq> [] \<Longrightarrow>
   fileTreeChildren topRepo topPath repos files =
     Inr (sort_key treeKey (map (nodeOf topPath)
            (firstBy (segmentOf topPath) (filter (\<lambda>f. Repository f = topRepo) files))))"
  by (simp add: fileTreeChildren_def treeLoop_closed sortSlice_treeLess)

text \<open>\<open>sort.Slice\<close> is not stable. The keys of the children are pairwise distinct, and
  then every ordered permutation of them is the list that the insertion sort returns.\<close>

lemma sorted_permutation_unique:
  assumes "distinct (map key xs)" and "mset ys = mset xs" and "sorted (map key ys)"
  shows "ys = sort_key key xs"
proof -
  let ?zs = "sort_key key xs"
  have m: "mset (map key ys) = mset (map key ?zs)"
    using assms(2) by simp
  have dz: "distinct (map key ?zs)"
    using assms(1) by (metis distinct_map distinct_sort set_sort inj_on_cong)
  have dy: "distinct (map key ys)"
    using m dz by (metis mset_eq_imp_distinct_iff)
  have "set (map key ys) = set (map key ?zs)"
    using m by (rule mset_eq_setD)
  with dy dz assms(3) have e: "map key ys = map key ?zs"
    by (intro sorted_distinct_set_unique) simp_all
  have "set ys = set xs" using assms(2) by (rule mset_eq_setD)
  moreover have "inj_on key (set xs)" using assms(1) by (simp add: distinct_map)
  ultimately have "inj_on key (set ys \<union> set ?zs)" by simp
  with e show ?thesis by (simp add: inj_on_map_eq_map)
qed

lemma find_filter: "find P (filter Q xs) = find (\<lambda>x. Q x \<and> P x) xs"
  by (induction xs) auto

lemma Display_nodeOf: "Display (nodeOf topPath f) = segmentOf topPath f"
  by (simp add: nodeOf_def)


text \<open>
  Claim C5. For every list of matched files and every requested root with a repository,
  the loop and the sort do not fail, and among the files of the requested repository: there is exactly one
  child per distinct first segment of the relative paths; the first file with a segment
  decides \<open>IsFile\<close> (true iff its relative path has no \<open>/\<close>); every child has its
  children absent; all directory nodes precede all file nodes, and each of the two runs
  is in lexicographic order of the display names.
\<close>

theorem fileTreeChildren_one_level:
  assumes "topRepo \<noteq> []"
  shows "\<exists>cs. fileTreeChildren topRepo topPath repos files = Inr cs
     \<and> distinct (map Display cs)
     \<and> set (map Display cs) = segmentOf topPath ` {f \<in> set files. Repository f = topRepo}
     \<and> (\<forall>c\<in>set cs. Children c = None
           \<and> (\<exists>f. find (\<lambda>f. Repository f = topRepo \<and> segmentOf topPath f = Display c) files = Some f
                 \<and> IsFile c = (CHR ''/'' \<notin> set (relativeOf topPath f))))
     \<and> cs = filter (\<lambda>c. \<not> IsFile c) cs @ filter IsFile cs
     \<and> sorted (map Display (filter (\<lambda>c. \<not> IsFile c) cs))
     \<and> sorted (map Display (filter IsFile cs))"
proof -
  let ?own = "filter (\<lambda>f. Repository f = topRepo) files"
  let ?firsts = "firstBy (segmentOf topPath) ?own"
  let ?cs = "sort_key treeKey (map (nodeOf topPath) ?firsts)"
  have res: "fileTreeChildren topRepo topPath repos files = Inr ?cs"
    using assms by (rule fileTreeChildren_closed)
  have disp: "map Display (map (nodeOf topPath) ?firsts) = firstSeen (map (segmentOf topPath) ?own)"
    by (simp add: comp_def Display_nodeOf map_key_firstBy)
  have "mset (map Display ?cs) = mset (firstSeen (map (segmentOf topPath) ?own))"
    using disp by (metis mset_map mset_sort)
  then have d: "distinct (map Display ?cs)"
    and s: "set (map Display ?cs) = set (firstSeen (map (segmentOf topPath) ?own))"
    using distinct_firstSeen [of "map (segmentOf topPath) ?own"]
    by (metis mset_eq_imp_distinct_iff, metis mset_eq_setD)
  from s have s': "set (map Display ?cs) = segmentOf topPath ` {f \<in> set files. Repository f = topRepo}"
    by (simp add: set_firstSeen)
  have each: "\<forall>c\<in>set ?cs. Children c = None
           \<and> (\<exists>f. find (\<lambda>f. Repository f = topRepo \<and> segmentOf topPath f = Display c) files = Some f
                 \<and> IsFile c = (CHR ''/'' \<notin> set (relativeOf topPath f)))"
  proof
    fix c assume "c \<in> set ?cs"
    then obtain f where f: "f \<in> set ?firsts" and c: "c = nodeOf topPath f"
      by auto
    from f have "find (\<lambda>g. segmentOf topPath g = segmentOf topPath f) ?own = Some f"
      by (rule firstBy_find)
    then have "find (\<lambda>g. Repository g = topRepo \<and> segmentOf topPath g = Display c) files = Some f"
      by (simp add: find_filter c Display_nodeOf)
    moreover have "Children c = None" "IsFile c = (CHR ''/'' \<notin> set (relativeOf topPath f))"
      by (simp_all add: c nodeOf_def)
    ultimately show "Children c = None
           \<and> (\<exists>f. find (\<lambda>f. Repository f = topRepo \<and> segmentOf topPath f = Display c) files = Some f
                 \<and> IsFile c = (CHR ''/'' \<notin> set (relativeOf topPath f)))"
      by blast
  qed
  have "sorted (map treeKey ?cs)" by simp
  then have ord: "?cs = filter (\<lambda>c. \<not> IsFile c) ?cs @ filter IsFile ?cs
     \<and> sorted (map Display (filter (\<lambda>c. \<not> IsFile c) ?cs))
     \<and> sorted (map Display (filter IsFile ?cs))"
    by (rule sorted_treeKey)
  from res d s' each ord show ?thesis by blast
qed

lemma treeFiles_children:
  "fileTreeChildren ''repo1'' ''dir'' [] treeFiles =
     Inr [FileTree ''repo1:dir/a'' ''a'' False False None,
          FileTree ''repo1:dir/c'' ''c'' False False None,
          FileTree ''repo1:dir/b.txt'' ''b.txt'' False True None]"
  by (simp add: fileTreeChildren_def treeFiles_def fileIn_def treeStep_def treePrefix_def
      stringsTrimPrefix_def sortSlice_def sortSliceStable_def treeLess_def Let_def
      less_char_def)

theorem fileTreeChildren_one_level_witness:
  "\<exists>cs. fileTreeChildren ''repo1'' ''dir'' [] treeFiles = Inr cs
     \<and> map Display cs = [''a'', ''c'', ''b.txt'']
     \<and> map IsFile cs = [False, False, True]
     \<and> set (map Display cs) = segmentOf ''dir'' ` {f \<in> set treeFiles. Repository f = ''repo1''}"
proof -
  have "''repo1'' \<noteq> []" by simp
  from fileTreeChildren_one_level [OF this, of "''dir''" "[]" treeFiles] treeFiles_children
  show ?thesis by auto
qed

subsection \<open>The exact repository filter\<close>

lemma set_firstBy_subset: "set (firstBy key xs) \<subseteq> set xs"
  by (auto simp: firstBy_def)

text \<open>
  Claim C6. The two handlers that query with a repository filter (the file tree for a
  non-empty root repository, and the source fetch) use a returned file
  only if its repository equals the requested one exactly: the children of the file tree
  and the result of the source fetch are those computed from the files of exactly the
  requested repository, every child is the node of such a file, and a returned content is
  the content of such a file.
\<close>

theorem exact_repository_filter:
  "(topRepo \<noteq> [] \<longrightarrow>
      fileTreeChildren topRepo topPath repos files
        = fileTreeChildren topRepo topPath repos (filter (\<lambda>f. Repository f = topRepo) files)
      \<and> (\<forall>cs. fileTreeChildren topRepo topPath repos files = Inr cs \<longrightarrow>
            (\<forall>c\<in>set cs. \<exists>f\<in>set files. Repository f = topRepo \<and> c = nodeOf topPath f)))
   \<and> sourceLoop r rq files = sourceLoop r rq (filter (\<lambda>f. Repository f = r) files)
   \<and> (\<forall>content. sourceLoop r rq files = Inr content \<longrightarrow>
         (\<exists>f\<in>set files. Repository f = r \<and> Content f = content))"
proof -
  have a: "fileTreeChildren topRepo topPath repos files
     = fileTreeChildren topRepo topPath repos (filter (\<lambda>f. Repository f = topRepo) files)"
    if "topRepo \<noteq> []"
    using that by (simp add: fileTreeChildren_closed)
  have "set (firstBy (segmentOf topPath) (filter (\<lambda>f. Repository f = topRepo) files))
      \<subseteq> {f \<in> set files. Repository f = topRepo}"
    using set_firstBy_subset [of "segmentOf topPath" "filter (\<lambda>f. Repository f = topRepo) files"]
    by auto
  then have b: "\<forall>cs. fileTreeChildren topRepo topPath repos files = Inr cs \<longrightarrow>
         (\<forall>c\<in>set cs. \<exists>f\<in>set files. Repository f = topRepo \<and> c = nodeOf topPath f)"
    if "topRepo \<noteq> []"
    using that by (auto simp: fileTreeChildren_closed)
  have c: "sourceLoop r rq files = sourceLoop r rq (filter (\<lambda>f. Repository f = r) files)"
    by (induction files) auto
  have d: "\<forall>content. sourceLoop r rq files = Inr content \<longrightarrow>
         (\<exists>f\<in>set files. Repository f = r \<and> Content f = content)"
    by (induction files) auto
  from a b c d show ?thesis by blast
qed

theorem exact_repository_filter_witness:
  "fileTreeChildren ''repo1'' ''dir'' [] [fileIn ''repo1-fork'' ''dir/a'', fileIn ''repo1'' ''dir/a'']
     = Inr [nodeOf ''dir'' (fileIn ''repo1'' ''dir/a'')]
   \<and> sourceLoop ''repo1'' ''r:repo1 f:^dir/a$'' [fileIn ''repo1-fork'' ''dir/a'', fileIn ''repo1'' ''dir/a'']
     = Inr (Content (fileIn ''repo1'' ''dir/a''))
   \<and> (\<exists>f\<in>set [fileIn ''repo1-fork'' ''dir/a'', fileIn ''repo1'' ''dir/a''].
         Repository f = ''repo1'' \<and> Content f = Content (fileIn ''repo1'' ''dir/a''))"
proof -
  let ?fs = "[fileIn ''repo1-fork'' ''dir/a'', fileIn ''repo1'' ''dir/a'']"
  note t = exact_repository_filter [where topRepo = "''repo1''" and topPath = "''dir''"
      and repos = "[]" and files = ?fs and r = "''repo1''" and rq = "''r:repo1 f:^dir/a$''"]
  have ne: "''repo1'' \<noteq> []" by simp
  have t1: "fileTreeChildren ''repo1'' ''dir'' [] (filter (\<lambda>f. Repository f = ''repo1'') ?fs)
     = Inr [nodeOf ''dir'' (fileIn ''repo1'' ''dir/a'')]"
    by (simp add: fileTreeChildren_def fileIn_def treeStep_def treePrefix_def nodeOf_def
        segmentOf_def relativeOf_def stringsTrimPrefix_def sortSlice_def sortSliceStable_def
        treeLess_def Let_def)
  from t have "''repo1'' \<noteq> [] \<longrightarrow>
      fileTreeChildren ''repo1'' ''dir'' [] ?fs
        = fileTreeChildren ''repo1'' ''dir'' [] (filter (\<lambda>f. Repository f = ''repo1'') ?fs)
      \<and> (\<forall>cs. fileTreeChildren ''repo1'' ''dir'' [] ?fs = Inr cs \<longrightarrow>
            (\<forall>c\<in>set cs. \<exists>f\<in>set ?fs. Repository f = ''repo1'' \<and> c = nodeOf ''dir'' f))"
    by (elim conjE)
  from this [THEN mp, OF ne] t1 have a: "fileTreeChildren ''repo1'' ''dir'' [] ?fs
      = Inr [nodeOf ''dir'' (fileIn ''repo1'' ''dir/a'')]"
    by (elim conjE) (simp only:)
  have s1: "sourceLoop ''repo1'' ''r:repo1 f:^dir/a$'' (filter (\<lambda>f. Repository f = ''repo1'') ?fs)
     = Inr (Content (fileIn ''repo1'' ''dir/a''))"
    by (simp add: fileIn_def)
  from t s1 have b: "sourceLoop ''repo1'' ''r:repo1 f:^dir/a$'' ?fs
      = Inr (Content (fileIn ''repo1'' ''dir/a''))"
    by (elim conjE) (simp only:)
  from t have "\<forall>content. sourceLoop ''repo1'' ''r:repo1 f:^dir/a$'' ?fs = Inr content \<longrightarrow>
         (\<exists>f\<in>set ?fs. Repository f = ''repo1'' \<and> Content f = content)"
    by (elim conjE)
  with b have c: "\<exists>f\<in>set ?fs. Repository f = ''repo1''
      \<and> Content f = Content (fileIn ''repo1'' ''dir/a'')"
    by (elim allE impE) assumption
  from a b c show ?thesis by (intro conjI)
qed

subsection \<open>Clipping of long lines\<close>

text \<open>
  Claim C8 says that a line of at most 250 characters is returned verbatim. The code
  measures bytes: \<open>accentedLine\<close> has 127 characters in 253 bytes, and its snippet text is
  clipped, the 30-byte prefix ending with the first byte of a two-byte character.
\<close>

theorem lineSnippet_clips_127_characters:
  "utf8Chars (Line accentedLine) = 127
   \<and> length (Line accentedLine) = 253
   \<and> map_sum id Text (lineSnippet accentedLine)
       = Inr (CHR ''x'' # concat (replicate 14 [CHR 0xC3, CHR 0xA9]) @ [CHR 0xC3]
              @ ''...line too long, clipped...'' @ concat (replicate 15 [CHR 0xC3, CHR 0xA9]))
   \<and> map_sum id Text (lineSnippet accentedLine) \<noteq> Inr (Line accentedLine)"
  by code_simp

text \<open>
  Claim C8, amended: with bytes in place of characters. For every line match with a first
  fragment: a line of more than 250 bytes gives a snippet text of its first 30 bytes, the
  clipping marker and its last 30 bytes (88 bytes in all); a line of at most 250 bytes is
  the snippet text as it is; and in both cases the two spans are those of the line match
  itself, in the wrapping arithmetic of Go's \<open>int\<close>: column 0 to \<open>LineEnd - LineStart\<close>,
  and the first fragment's offset to offset plus length, on line \<open>LineNumber - 1\<close>.
\<close>

theorem lineSnippet_clipping:
  assumes "LineFragments l = firstFrag # rest"
  shows "\<exists>s. lineSnippet l = Inr s
     \<and> (length (Line l) > 250 \<longrightarrow>
          Text s = take 30 (Line l) @ ''...line too long, clipped...''
                     @ drop (length (Line l) - 30) (Line l)
          \<and> length (Text s) = 88)
     \<and> (length (Line l) \<le> 250 \<longrightarrow> Text s = Line l)
     \<and> FullSpan s =
          \<lparr>From = \<lparr>CmLine = LineNumber l - 1, CmCh = 0\<rparr>,
           To = \<lparr>CmLine = LineNumber l - 1, CmCh = LineEnd l - LineStart l\<rparr>\<rparr>
     \<and> OccurrenceSpan s =
          \<lparr>From = \<lparr>CmLine = LineNumber l - 1, CmCh = LineOffset firstFrag\<rparr>,
           To = \<lparr>CmLine = LineNumber l - 1,
                 CmCh = LineOffset firstFrag + MatchLength firstFrag\<rparr>\<rparr>"
  using assms by (simp add: lineSnippet_def Let_def)

theorem lineSnippet_clipping_witness:
  "(\<exists>s. lineSnippet longLine = Inr s
      \<and> Text s = replicate 30 CHR ''x'' @ ''...line too long, clipped...'' @ replicate 30 CHR ''x''
      \<and> CmCh (From (OccurrenceSpan s)) = 100 \<and> CmCh (To (FullSpan s)) = 300)
   \<and> (\<exists>s. lineSnippet lineWithFragment = Inr s \<and> Text s = ''foo :: Int'')"
proof -
  have f1: "LineFragments longLine = \<lparr>LineOffset = 100, MatchLength = 3\<rparr> # []"
    by (simp add: longLine_def)
  have f2: "LineFragments lineWithFragment = \<lparr>LineOffset = 0, MatchLength = 3\<rparr> # []"
    by (simp add: lineWithFragment_def)
  have long: "length (Line longLine) > 250" by (simp add: longLine_def)
  have short: "length (Line lineWithFragment) \<le> 250" by (simp add: lineWithFragment_def)
  from lineSnippet_clipping [OF f1] long
  have a: "\<exists>s. lineSnippet longLine = Inr s
      \<and> Text s = replicate 30 CHR ''x'' @ ''...line too long, clipped...'' @ replicate 30 CHR ''x''
      \<and> CmCh (From (OccurrenceSpan s)) = 100 \<and> CmCh (To (FullSpan s)) = 300"
    by (auto simp: longLine_def)
  from lineSnippet_clipping [OF f2] short
  have b: "\<exists>s. lineSnippet lineWithFragment = Inr s \<and> Text s = ''foo :: Int''"
    by (auto simp: lineWithFragment_def)
  from a b show ?thesis by (rule conjI)
qed

subsection \<open>The first fragment of every line match\<close>

lemma lineSnippet_Inl: "(lineSnippet l = Inl p) = (LineFragments l = [] \<and> p = IndexOutOfRange)"
  by (auto simp: lineSnippet_def Let_def split: list.splits)

lemma lineSnippet_Inr_iff: "(\<exists>s. lineSnippet l = Inr s) = (LineFragments l \<noteq> [])"
  by (auto simp: lineSnippet_def Let_def split: list.splits)

lemma lineLoop_ok:
  "\<forall>l\<in>set ls. LineFragments l \<noteq> [] \<Longrightarrow>
   \<exists>snips. lineLoop ls acc = Inr (fst acc @ snips, snd acc @ concat (map Line ls))
      \<and> length snips = length ls"
proof (induction ls arbitrary: acc)
  case Nil
  show ?case by simp
next
  case (Cons l ls)
  then obtain s where s: "lineSnippet l = Inr s"
    using lineSnippet_Inr_iff [of l] by auto
  from Cons obtain snips where
    "lineLoop ls (fst acc @ [s], snd acc @ Line l)
       = Inr (fst (fst acc @ [s], snd acc @ Line l) @ snips,
              snd (fst acc @ [s], snd acc @ Line l) @ concat (map Line ls))"
    and "length snips = length ls"
    by (metis list.set_intros(2))
  with s show ?case by (intro exI [of _ "s # snips"]) simp
qed

lemma lineLoop_panic:
  "\<exists>l\<in>set ls. LineFragments l = [] \<Longrightarrow> lineLoop ls acc = Inl IndexOutOfRange"
proof (induction ls arbitrary: acc)
  case Nil
  then show ?case by simp
next
  case (Cons l ls)
  show ?case
  proof (cases "LineFragments l = []")
    case True
    then have "lineSnippet l = Inl IndexOutOfRange" by (simp add: lineSnippet_Inl)
    then show ?thesis by simp
  next
    case False
    then obtain s where s: "lineSnippet l = Inr s"
      using lineSnippet_Inr_iff [of l] by auto
    from False Cons.prems have "\<exists>l\<in>set ls. LineFragments l = []" by auto
    then have "lineLoop ls (fst acc @ [s], snd acc @ Line l) = Inl IndexOutOfRange"
      by (rule Cons.IH)
    with s show ?thesis by simp
  qed
qed

lemma fileSitesOf_ok:
  assumes "\<forall>l\<in>set (LineMatches f). LineFragments l \<noteq> []"
  shows "\<exists>site. fileSitesOf sha1 f = Inr site
     \<and> snippetsHash site = sha1 (concat (map Line (LineMatches f)))
     \<and> fileChecksum site = Checksum f
     \<and> FileTicket (containingFile site) = Repository f @ '':'' @ FileName f
     \<and> length (snippets site) = length (LineMatches f)"
proof -
  from lineLoop_ok [OF assms, of "([], [])"] obtain snips where
    "lineLoop (LineMatches f) ([], []) = Inr (snips, concat (map Line (LineMatches f)))"
    "length snips = length (LineMatches f)"
    by auto
  then show ?thesis by (simp add: fileSitesOf_def Let_def)
qed

lemma fileSitesOf_panic:
  assumes "\<exists>l\<in>set (LineMatches f). LineFragments l = []"
  shows "fileSitesOf sha1 f = Inl IndexOutOfRange"
  using lineLoop_panic [OF assms, of "([], [])"] by (simp add: fileSitesOf_def Let_def)

lemma appendSearchesLoop_ok:
  "\<forall>f\<in>set files. \<forall>l\<in>set (LineMatches f). LineFragments l \<noteq> [] \<Longrightarrow>
   \<exists>sites. appendSearchesLoop sha1 files many = Inr (many @ sites) \<and> length sites = length files"
proof (induction files arbitrary: many)
  case Nil
  show ?case by simp
next
  case (Cons f files)
  then have "\<forall>l\<in>set (LineMatches f). LineFragments l \<noteq> []" by simp
  from fileSitesOf_ok [OF this, of sha1] obtain site where site: "fileSitesOf sha1 f = Inr site"
    by blast
  from Cons obtain sites where
    "appendSearchesLoop sha1 files (many @ [site]) = Inr ((many @ [site]) @ sites)"
    "length sites = length files"
    by (metis list.set_intros(2))
  with site show ?case by (intro exI [of _ "site # sites"]) simp
qed

lemma appendSearchesLoop_panic:
  "\<exists>f\<in>set files. \<exists>l\<in>set (LineMatches f). LineFragments l = [] \<Longrightarrow>
   appendSearchesLoop sha1 files many = Inl IndexOutOfRange"
proof (induction files arbitrary: many)
  case Nil
  then show ?case by simp
next
  case (Cons f files)
  show ?case
  proof (cases "\<exists>l\<in>set (LineMatches f). LineFragments l = []")
    case True
    then show ?thesis by (simp add: fileSitesOf_panic)
  next
    case False
    then have "\<forall>l\<in>set (LineMatches f). LineFragments l \<noteq> []" by simp
    from fileSitesOf_ok [OF this, of sha1] obtain site where site: "fileSitesOf sha1 f = Inr site"
      by blast
    from False Cons.prems have "\<exists>f\<in>set files. \<exists>l\<in>set (LineMatches f). LineFragments l = []"
      by auto
    then have "appendSearchesLoop sha1 files (many @ [site]) = Inl IndexOutOfRange"
      by (rule Cons.IH)
    with site show ?thesis by simp
  qed
qed

text \<open>
  Claim C10. When every line match of every file carries at least one fragment, the
  loop of \<open>appendSearches\<close> reads every first fragment in bounds and appends one site
  per file; when some line match has no fragment, the loop ends in the index panic and
  returns no sites and no error value.
\<close>

theorem appendSearchesLoop_first_fragment:
  "((\<forall>f\<in>set files. \<forall>l\<in>set (LineMatches f). LineFragments l \<noteq> []) \<longrightarrow>
      (\<exists>sites. appendSearchesLoop sha1 files many = Inr (many @ sites)
         \<and> length sites = length files))
   \<and> ((\<exists>f\<in>set files. \<exists>l\<in>set (LineMatches f). LineFragments l = []) \<longrightarrow>
      appendSearchesLoop sha1 files many = Inl IndexOutOfRange)"
  using appendSearchesLoop_ok [of files sha1 many] appendSearchesLoop_panic [of files sha1 many]
  by blast

theorem appendSearchesLoop_first_fragment_witness:
  "(\<exists>sites. appendSearchesLoop (\<lambda>written. written) [fileWith [lineWithFragment]] [] = Inr sites
       \<and> length sites = 1)
   \<and> appendSearchesLoop (\<lambda>written. written) [fileWith [lineWithFragment, lineWithoutFragment]] []
       = Inl IndexOutOfRange"
proof -
  have ok: "\<forall>f\<in>set [fileWith [lineWithFragment]]. \<forall>l\<in>set (LineMatches f). LineFragments l \<noteq> []"
    by (simp add: fileWith_def lineWithFragment_def)
  have bad: "\<exists>f\<in>set [fileWith [lineWithFragment, lineWithoutFragment]].
      \<exists>l\<in>set (LineMatches f). LineFragments l = []"
    by (simp add: fileWith_def lineWithoutFragment_def)
  from appendSearchesLoop_first_fragment [of "[fileWith [lineWithFragment]]" "\<lambda>written. written" "[]"] ok
  have a: "\<exists>sites. appendSearchesLoop (\<lambda>written. written) [fileWith [lineWithFragment]] [] = Inr sites
       \<and> length sites = 1"
    by auto
  from appendSearchesLoop_first_fragment
    [of "[fileWith [lineWithFragment, lineWithoutFragment]]" "\<lambda>written. written" "[]"] bad
  have b: "appendSearchesLoop (\<lambda>written. written) [fileWith [lineWithFragment, lineWithoutFragment]] []
       = Inl IndexOutOfRange"
    by blast
  from a b show ?thesis by (rule conjI)
qed

subsection \<open>Match-content grouping\<close>

text \<open>
  Claim C2. For every input list of \<open>groupSites\<close>: there is one group per distinct
  snippets hash, the groups stand in the order in which their hashes are first seen, the
  group of a hash holds the sites of all the inputs carrying that hash, in input order,
  and \<open>matchDupCnt\<close> (reported as \<open>rcDupMatches\<close>) is the number of positions that repeat
  an earlier hash, which are the sites appended to a group that already had a member.
  The snippets hash of a site built by \<open>appendSearches\<close> is the digest of the
  concatenation of the raw bytes of the file's matched lines.
\<close>

theorem groupSites_grouping:
  "groups (groupSites fss)
     = map (\<lambda>h. \<lparr>Files = groupMembers fss h\<rparr>) (firstSeen (map snippetsHash fss))
   \<and> matchDupCnt (groupSites fss) = length (repeats snippetsHash fss)
   \<and> (\<forall>site. fileSitesOf sha1 f = Inr site \<longrightarrow>
         snippetsHash site = sha1 (concat (map Line (LineMatches f))))"
proof -
  have "snippetsHash site = sha1 (concat (map Line (LineMatches f)))"
    if site: "fileSitesOf sha1 f = Inr site" for site
  proof (cases "\<exists>l\<in>set (LineMatches f). LineFragments l = []")
    case True
    from fileSitesOf_panic [OF True, of sha1] site show ?thesis by simp
  next
    case False
    then have "\<forall>l\<in>set (LineMatches f). LineFragments l \<noteq> []" by simp
    from fileSitesOf_ok [OF this, of sha1] site show ?thesis by auto
  qed
  then show ?thesis by (simp add: groupSites_closed)
qed

theorem groupSites_grouping_witness:
  "groups (groupSites [siteA, siteB, siteC])
     = [\<lparr>Files = [emittedSite [siteA, siteB, siteC] 0, emittedSite [siteA, siteB, siteC] 2]\<rparr>,
        \<lparr>Files = [emittedSite [siteA, siteB, siteC] 1]\<rparr>]
   \<and> matchDupCnt (groupSites [siteA, siteB, siteC]) = 1
   \<and> (\<exists>site. fileSitesOf (\<lambda>written. written) (fileWith [lineWithFragment, lineWithFragment]) = Inr site
         \<and> snippetsHash site = ''foo :: Intfoo :: Int'')"
proof -
  let ?f = "fileWith [lineWithFragment, lineWithFragment]"
  note t = groupSites_grouping [where fss = "[siteA, siteB, siteC]" and ?sha1.0 = "\<lambda>written. written"
      and f = ?f]
  have "\<forall>l\<in>set (LineMatches ?f). LineFragments l \<noteq> []"
    by (simp add: fileWith_def lineWithFragment_def)
  from fileSitesOf_ok [OF this, of "\<lambda>written. written"]
  obtain site where site: "fileSitesOf (\<lambda>written. written) ?f = Inr site" by blast
  from t have "\<forall>site. fileSitesOf (\<lambda>written. written) ?f = Inr site \<longrightarrow>
      snippetsHash site = (\<lambda>written. written) (concat (map Line (LineMatches ?f)))"
    by (elim conjE)
  from this [THEN spec, THEN mp, OF site]
  have "snippetsHash site = ''foo :: Intfoo :: Int''"
    by (simp add: fileWith_def lineWithFragment_def)
  with site have c: "\<exists>site. fileSitesOf (\<lambda>written. written) ?f = Inr site
         \<and> snippetsHash site = ''foo :: Intfoo :: Int''"
    by blast
  have hs: "firstSeen (map snippetsHash [siteA, siteB, siteC]) = [''h1'', ''h2'']"
    by (simp add: firstSeen_def siteA_def siteB_def siteC_def)
  have g1: "groupMembers [siteA, siteB, siteC] ''h1''
      = [emittedSite [siteA, siteB, siteC] 0, emittedSite [siteA, siteB, siteC] 2]"
    and g2: "groupMembers [siteA, siteB, siteC] ''h2'' = [emittedSite [siteA, siteB, siteC] 1]"
    by (simp_all add: groupMembers_def siteA_def siteB_def siteC_def upt_rec numeral_2_eq_2)
  have r: "length (repeats snippetsHash [siteA, siteB, siteC]) = 1"
    by (simp add: repeats_def siteA_def siteB_def siteC_def upt_rec)
  from t hs g1 g2 r c show ?thesis by simp
qed

subsection \<open>The declaration pass\<close>

text \<open>The expression is a fixed template with the selection spliced in four times,
  unescaped: different selections give different expressions.\<close>

lemma declPattern_inj: "(declPattern s1 = declPattern s2) = (s1 = s2)"
proof
  assume eq: "declPattern s1 = declPattern s2"
  then have "length (declPattern s1) = length (declPattern s2)" by simp
  then have len: "length s1 = length s2" by (simp add: declPattern_def bs_def)
  from eq len show "s1 = s2" by (simp add: declPattern_def)
next
  assume "s1 = s2"
  then show "declPattern s1 = declPattern s2" by simp
qed

text \<open>The loops in closed form: the copies stand in the order of the sites and, within a
  site, of its snippets.\<close>

lemma snippetLoop_closed:
  "snippetLoop m fs ss acc
     = acc @ map (\<lambda>s. fs\<lparr>snippets := [s]\<rparr>) (filter (\<lambda>s. m (Text s)) ss)"
  by (induction ss arbitrary: acc) simp_all

lemma declLoop_closed:
  "declLoop m sites acc
     = acc @ concat (map (\<lambda>fs. map (\<lambda>s. fs\<lparr>snippets := [s]\<rparr>)
                                  (filter (\<lambda>s. m (Text s)) (snippets fs))) sites)"
  by (induction sites arbitrary: acc) (simp_all add: snippetLoop_closed)

lemma declLoop_example:
  "declLoop startsWithFoo [siteWithSnippets] []
     = [siteWithSnippets\<lparr>snippets := [snippetOf ''foo :: Int'']\<rparr>,
        siteWithSnippets\<lparr>snippets := [snippetOf ''foo = 1'']\<rparr>]"
  by (simp add: siteWithSnippets_def startsWithFoo_def snippetOf_def)

text \<open>For a selection whose expression has no group error and passes the rest of the
  library, as for \<open>foo\<close>, the pass returns the copies.\<close>

lemma declSitesOf_compiled:
  "\<not> groupError (declPattern selection) \<Longrightarrow> regexpParse (declPattern selection) = Some m \<Longrightarrow>
   declSitesOf regexpParse selection sites = Inr (declLoop m sites [])"
  by (simp add: declSitesOf_def regexpCompile_def)

lemma groupError_examples:
  "\<not> groupError (declPattern ''foo'')"
  "groupError (declPattern '')'')"
  "\<not> groupError (declPattern ''[(]'')"
  "\<not> groupError (declPattern (CHR 0x5C # ''(''))"
  "\<not> groupError ''(?i)(a|[^)])''"
  "\<not> groupError (CHR 0x5C # ''Q(('' @ [CHR 0x5C] @ ''E'')"
  "\<not> groupError ''[[:alpha:](]''"
  by (simp_all add: groupError_def declPattern_def bs_def)

text \<open>
  Claim C9 says that the classifier is one fixed expression, so that for every selection
  its construction and the declaration pass succeed. The code splices the selection into
  the expression without escaping it (it escapes it for the backend query, with
  \<open>escapeLiteralQuery\<close>). For the selection \<open>(\<close> the expression has four groups that are
  never closed, whatever the rest of the library does: \<open>regexp.MustCompile\<close> panics, for
  every list of sites, and the handler returns neither a reply nor an error.
\<close>

theorem declSitesOf_panics_on_open_paren:
  "declSitesOf regexpParse ''('' manyFileSites = Inl RegexpCompile"
  by (simp add: declSitesOf_def regexpCompile_def groupError_def declPattern_def bs_def)

end
